theory Spec2Isabelle
  imports Main "HOL-Library.Sublist" "HOL-Library.Monad_Syntax"
begin

section \<open>Strings and the Go primitives the analyzer uses\<close>

text \<open>
  A Go string is modelled by the list of its Unicode code points (the text the analyzer
  reads is UTF-8). A code point is a natural number; \<open>asc ''abc''\<close> is the ASCII
  literal \<open>"abc"\<close>. On such strings the byte-level tests of the source
  (\<open>r[len(r)-1] == 'i'\<close>, \<open>strings.HasSuffix\<close>, \<open>strings.Count\<close>, slicing
  off an ASCII suffix) and the same tests on code points agree, because an ASCII byte
  never occurs inside the encoding of another code point.

  A run-time panic of Go (an index or a slice bound out of range) is the value
  \<open>None\<close>: \<open>go_index\<close> and \<open>go_slice\<close> are Go's \<open>s[i]\<close> and
  \<open>s[lo:hi]\<close>, and every function that indexes or slices returns an option.
\<close>

type_synonym rune = nat
type_synonym gostring = "rune list"

abbreviation (input) asc :: "string \<Rightarrow> gostring" where
  "asc s \<equiv> map of_char s"

definition go_index :: "'a list \<Rightarrow> int \<Rightarrow> 'a option" where
  "go_index xs i = (if 0 \<le> i \<and> i < int (length xs) then Some (xs ! nat i) else None)"

definition go_slice :: "'a list \<Rightarrow> int \<Rightarrow> int \<Rightarrow> 'a list option" where
  "go_slice xs lo hi =
     (if 0 \<le> lo \<and> lo \<le> hi \<and> hi \<le> int (length xs)
      then Some (take (nat (hi - lo)) (drop (nat lo) xs)) else None)"

text \<open>\<open>strings.Count\<close>: the number of non-overlapping occurrences, found from the
  left; for the empty pattern, the number of code points plus one.\<close>

function Count :: "gostring \<Rightarrow> gostring \<Rightarrow> int" where
  "Count s sub =
     (if sub = [] then int (length s) + 1
      else if s = [] then 0
      else if prefix sub s then 1 + Count (drop (length sub) s) sub
      else Count (tl s) sub)"
  by pat_completeness auto
termination
  by (relation "measure (\<lambda>(s, sub). length s)") auto

declare Count.simps [simp del]

text \<open>\<open>strings.Index\<close> for a one-character pattern: the position of its first
  occurrence, or \<open>-1\<close>.\<close>

fun Index :: "gostring \<Rightarrow> rune \<Rightarrow> int" where
  "Index [] c = -1"
| "Index (x # xs) c = (if x = c then 0 else (let k = Index xs c in if k < 0 then -1 else k + 1))"

text \<open>A \<open>map[K]V\<close> is an association list; \<open>map_of\<close> is the lookup. Where the
  source ranges over a map, the list's order stands for the order Go happens to iterate
  in, which is unspecified: the theorems below hold for every order.\<close>

text \<open>\<open>strings.NewReplacer\<close> with one-character patterns: every code point that has
  an entry is replaced by its replacement, the others are kept.\<close>

definition Replace :: "(rune \<times> gostring) list \<Rightarrow> gostring \<Rightarrow> gostring" where
  "Replace tab s = concat (map (\<lambda>c. case map_of tab c of Some new \<Rightarrow> new | None \<Rightarrow> [c]) s)"

text \<open>The case tables of Go's \<open>unicode\<close> package are not part of the repository;
  they are a parameter of every function that uses them.\<close>

record unicode =
  IsUpper :: "rune \<Rightarrow> bool"
  IsLower :: "rune \<Rightarrow> bool"
  ToUpper :: "rune \<Rightarrow> rune"
  ToLower :: "rune \<Rightarrow> rune"

definition strings_ToLower :: "unicode \<Rightarrow> gostring \<Rightarrow> gostring" where
  "strings_ToLower U s = map (ToLower U) s"

lemma length_strings_ToLower [simp]: "length (strings_ToLower U s) = length s"
  by (simp add: strings_ToLower_def)

section \<open>Normalization (normalize.go)\<close>

definition atoneReplacer :: "(rune \<times> gostring) list" where
  "atoneReplacer =
    [(0x0101, asc ''a''), (0x0103, asc ''a''), (0x0113, asc ''e''), (0x0115, asc ''e''),
     (0x012b, asc ''i''), (0x012d, asc ''i''), (0x014d, asc ''o''), (0x014f, asc ''o''),
     (0x016b, asc ''u''), (0x016d, asc ''u''), (0x0233, asc ''y''), (0x045e, asc ''y''),
     (0x0100, asc ''A''), (0x0102, asc ''A''), (0x0112, asc ''E''), (0x0114, asc ''E''),
     (0x012a, asc ''I''), (0x012c, asc ''I''), (0x014c, asc ''O''), (0x014e, asc ''O''),
     (0x016a, asc ''U''), (0x016c, asc ''U''), (0x0232, asc ''Y''), (0x040e, asc ''Y'')]"

definition Atone :: "gostring \<Rightarrow> gostring" where
  "Atone s = filter (\<lambda>c. c \<noteq> 0x0306) (Replace atoneReplacer s)"

definition deramiseReplacer :: "(rune \<times> gostring) list" where
  "deramiseReplacer =
    [(of_char CHR ''J'', asc ''I''), (of_char CHR ''j'', asc ''i''),
     (of_char CHR ''v'', asc ''u''), (of_char CHR ''V'', asc ''U''),
     (0x00e6, asc ''ae''), (0x00c6, asc ''Ae''),
     (0x0153, asc ''oe''), (0x0152, asc ''Oe''),
     (0x1ee5, asc ''u'')]"

definition Deramise :: "gostring \<Rightarrow> gostring" where
  "Deramise s = Replace deramiseReplacer s"

definition NormalizeKey :: "gostring \<Rightarrow> gostring" where
  "NormalizeKey s = Atone (Deramise s)"

lemma Replace_append: "Replace tab (a @ b) = Replace tab a @ Replace tab b"
  by (simp add: Replace_def)

lemma Replace_Cons: "Replace tab (c # s) = Replace tab [c] @ Replace tab s"
  by (simp add: Replace_def)


lemma Deramise_append: "Deramise (a @ b) = Deramise a @ Deramise b"
  by (simp add: Deramise_def Replace_append)





section \<open>Data model (lemma.go, model.go, collatinus.go)\<close>

text \<open>
  Pointers are addresses: a \<open>*Lemma\<close> is a natural number and the Lemma objects
  live in \<open>lemma_heap\<close>; a \<open>*Model\<close> is an optional address (\<open>None\<close> is
  \<open>nil\<close>) into \<open>model_heap\<close>. The loaders never store a nil \<open>*Lemma\<close> in a
  Radical or an Irreg. Desinence, Radical and Irreg objects are not changed after they
  are created, so the indexes hold them by value. Fields that no modelled function reads
  (translations, occurrence counts, part of speech of a lemma) are left out.
\<close>

record Analysis =
  FormWithMarks :: gostring
  MorphoDescription :: gostring
  MorphoIndex :: int

record Desinence =
  d_Grq :: gostring
  d_Gr :: gostring
  MorphoNum :: int
  RadNum :: int
  d_Model :: "nat option"

record Radical =
  r_Grq :: gostring
  r_Gr :: gostring
  Num :: int
  r_Lemma :: nat

record Irreg =
  i_Grq :: gostring
  i_Gr :: gostring
  Exclusive :: bool
  i_Lemma :: nat
  Morphos :: "int list"

record Lemma =
  Key :: gostring
  l_Grq :: gostring
  l_Gr :: gostring
  model :: "nat option"
  l_radicals :: "(int \<times> Radical list) list"
  l_irregs :: "Irreg list"
  morphosIrregExcl :: "int list"

record Model =
  Name :: gostring
  parent :: "nat option"
  RadicalRules :: "(int \<times> gostring) list"
  Absents :: "int list"
  Desinences :: "(int \<times> Desinence list) list"
  pos :: rune

record Lemmatizer =
  morphos :: "gostring list"
  models :: "(gostring \<times> nat) list"
  lemmas_tab :: "(gostring \<times> nat) list"
  desinences :: "(gostring \<times> Desinence list) list"
  radicals :: "(gostring \<times> Radical list) list"
  irregs :: "(gostring \<times> Irreg list) list"
  variables :: "(gostring \<times> gostring) list"
  assims :: "(gostring \<times> gostring) list"
  contractions :: "(gostring \<times> gostring) list"
  lemma_heap :: "nat \<Rightarrow> Lemma"
  model_heap :: "nat \<Rightarrow> Model"

text \<open>The result \<open>map[*Lemma][]Analysis\<close>. A nil map and an empty map are both
  \<open>[]\<close>: the source tests them with \<open>len\<close> and ranges over them only.\<close>

type_synonym resmap = "(nat \<times> Analysis list) list"

text \<open>\<open>m[k] = append(m[k], ans...)\<close>\<close>

fun app_res :: "resmap \<Rightarrow> nat \<Rightarrow> Analysis list \<Rightarrow> resmap" where
  "app_res [] k ans = [(k, ans)]"
| "app_res ((k', v) # rest) k ans =
     (if k' = k then (k', v @ ans) # rest else (k', v) # app_res rest k ans)"

text \<open>A loop whose body may panic.\<close>

fun foldM :: "('a \<Rightarrow> 'b \<Rightarrow> 'b option) \<Rightarrow> 'a list \<Rightarrow> 'b \<Rightarrow> 'b option" where
  "foldM f [] acc = Some acc"
| "foldM f (x # xs) acc = (case f x acc of None \<Rightarrow> None | Some acc' \<Rightarrow> foldM f xs acc')"

fun mapM :: "('a \<Rightarrow> 'b option) \<Rightarrow> 'a list \<Rightarrow> 'b list option" where
  "mapM f [] = Some []"
| "mapM f (x # xs) =
     (case f x of None \<Rightarrow> None
      | Some y \<Rightarrow> (case mapM f xs of None \<Rightarrow> None | Some ys \<Rightarrow> Some (y # ys)))"

lemma foldM_cong [fundef_cong]:
  "xs = ys \<Longrightarrow> a = b \<Longrightarrow> (\<And>x acc. x \<in> set ys \<Longrightarrow> f x acc = g x acc)
   \<Longrightarrow> foldM f xs a = foldM g ys b"
  by (induction ys arbitrary: xs a b) (auto split: option.splits)

subsection \<open>collatinus.go\<close>

definition Morpho :: "Lemmatizer \<Rightarrow> int \<Rightarrow> gostring option" where
  "Morpho l m =
     (if m < 1 \<or> int (length (morphos l)) \<le> m then Some [] else go_index (morphos l) m)"

definition Lemmatizer_Lemma :: "Lemmatizer \<Rightarrow> gostring \<Rightarrow> nat option" where
  "Lemmatizer_Lemma l key = map_of (lemmas_tab l) (NormalizeKey key)"

subsection \<open>lemma.go\<close>

definition addIrreg :: "Irreg \<Rightarrow> Lemma \<Rightarrow> Lemma" where
  "addIrreg irr lem =
     (let lem1 = lem\<lparr>l_irregs := l_irregs lem @ [irr]\<rparr>
      in if Exclusive irr
         then lem1\<lparr>morphosIrregExcl := morphosIrregExcl lem1 @ Morphos irr\<rparr>
         else lem1)"

definition isExclusiveIrreg :: "Lemma \<Rightarrow> int \<Rightarrow> bool" where
  "isExclusiveIrreg lem nm = (nm \<in> set (morphosIrregExcl lem))"

fun irregAt_loop :: "Irreg list \<Rightarrow> int \<Rightarrow> gostring \<times> bool" where
  "irregAt_loop [] i = ([], False)"
| "irregAt_loop (ir # irs) i =
     (if i \<in> set (Morphos ir) then (i_Grq ir, Exclusive ir) else irregAt_loop irs i)"

definition irregAt :: "Lemma \<Rightarrow> int \<Rightarrow> gostring \<times> bool" where
  "irregAt lem i = irregAt_loop (l_irregs lem) i"

definition RadicalsAt :: "Lemma \<Rightarrow> int \<Rightarrow> Radical list" where
  "RadicalsAt lem r = (case map_of (l_radicals lem) r of None \<Rightarrow> [] | Some rs \<Rightarrow> rs)"

subsection \<open>model.go\<close>

definition DesinencesAt :: "Model \<Rightarrow> int \<Rightarrow> Desinence list" where
  "DesinencesAt m morphoNum = (case map_of (Desinences m) morphoNum of None \<Rightarrow> [] | Some ds \<Rightarrow> ds)"

definition isAbsent :: "Model \<Rightarrow> int \<Rightarrow> bool" where
  "isAbsent m a = (a \<in> set (Absents m))"

definition hasDesinence :: "Model \<Rightarrow> int \<Rightarrow> bool" where
  "hasDesinence m morphoNum = (map_of (Desinences m) morphoNum \<noteq> None)"

section \<open>The raw matcher (lemmatize.go, lemmatizeRaw)\<close>

definition irreg_probe :: "Lemmatizer \<Rightarrow> gostring \<Rightarrow> resmap \<Rightarrow> resmap option" where
  "irreg_probe l form result =
     (case map_of (irregs l) form of
        None \<Rightarrow> Some result
      | Some irrs \<Rightarrow>
          foldM (\<lambda>irr result.
            foldM (\<lambda>mn result.
              do { desc \<leftarrow> Morpho l mn;
                   Some (app_res result (i_Lemma irr)
                     [\<lparr>FormWithMarks = i_Grq irr, MorphoDescription = desc, MorphoIndex = mn\<rparr>]) })
              (Morphos irr) result)
            irrs result)"

definition needDoubleI :: "gostring \<Rightarrow> gostring \<Rightarrow> bool" where
  "needDoubleI r d =
     (let rEndsI = (length r > 0 \<and> go_index r (int (length r) - 1) = Some (of_char CHR ''i''));
          rEndsII = suffix (asc ''ii'') r;
          dStartsI = (length d > 0 \<and> go_index d 0 = Some (of_char CHR ''i''));
          dStartsII = prefix (asc ''ii'') d
      in (length d = 0 \<and> rEndsI) \<or>
         (dStartsI \<and> \<not> dStartsII \<and> \<not> rEndsI) \<or>
         (rEndsI \<and> \<not> rEndsII \<and> \<not> dStartsI))"

definition removeExtraI :: "int \<Rightarrow> Analysis \<Rightarrow> Analysis option" where
  "removeExtraI rLen an =
     (let grq = FormWithMarks an
      in if rLen > 0 \<and> rLen - 1 < int (length grq)
         then do { a \<leftarrow> go_slice grq 0 (rLen - 1);
                   b \<leftarrow> go_slice grq rLen (int (length grq));
                   Some (an\<lparr>FormWithMarks := a @ b\<rparr>) }
         else Some an)"

definition foldIn :: "int \<Rightarrow> resmap \<Rightarrow> resmap \<Rightarrow> resmap option" where
  "foldIn rLen nm result =
     foldM (\<lambda>(nl, lsl) result.
              do { lsl' \<leftarrow> mapM (removeExtraI rLen) lsl;
                   Some (app_res result nl lsl') })
       nm result"

definition vowelCountOK :: "unicode \<Rightarrow> int \<Rightarrow> int \<Rightarrow> int \<Rightarrow> Radical \<Rightarrow> Desinence \<Rightarrow> bool" where
  "vowelCountOK U cntV cntAe cntOe rad de =
     (let radGrqLower = strings_ToLower U (r_Grq rad);
          desGrqLower = strings_ToLower U (d_Grq de);
          cOK = (cntV = 0 \<or> cntV = Count radGrqLower (asc ''v'') + Count desGrqLower (asc ''v''));
          cOK = (cOK \<and> (cntOe = 0 \<or> cntOe = Count radGrqLower [0x014d, of_char CHR ''e'']));
          cOK = (cOK \<and> (cntAe = 0 \<or> cntAe = Count radGrqLower [0x0101, of_char CHR ''e'']
                     + Count radGrqLower [of_char CHR ''p'', of_char CHR ''r'', 0x0103, of_char CHR ''e'']))
      in cOK)"

definition tryPair ::
  "unicode \<Rightarrow> Lemmatizer \<Rightarrow> int \<Rightarrow> int \<Rightarrow> int \<Rightarrow> Radical \<Rightarrow> Desinence \<Rightarrow> resmap \<Rightarrow> resmap option" where
  "tryPair U l cntV cntAe cntOe rad de result =
     (let lem = lemma_heap l (r_Lemma rad)
      in if d_Model de \<noteq> model lem then Some result
         else if RadNum de \<noteq> Num rad then Some result
         else if isExclusiveIrreg lem (MorphoNum de) then Some result
         else if MorphoNum de < 1 \<or> int (length (morphos l)) \<le> MorphoNum de then Some result
         else if \<not> vowelCountOK U cntV cntAe cntOe rad de then Some result
         else do { desc \<leftarrow> Morpho l (MorphoNum de);
                   Some (app_res result (r_Lemma rad)
                     [\<lparr>FormWithMarks = r_Grq rad @ d_Grq de, MorphoDescription = desc,
                       MorphoIndex = MorphoNum de\<rparr>]) })"

definition matchAll ::
  "unicode \<Rightarrow> Lemmatizer \<Rightarrow> int \<Rightarrow> int \<Rightarrow> int \<Rightarrow> Radical list \<Rightarrow> Desinence list \<Rightarrow> resmap \<Rightarrow> resmap option" where
  "matchAll U l cntV cntAe cntOe rads des result =
     foldM (\<lambda>rad result. foldM (\<lambda>de result. tryPair U l cntV cntAe cntOe rad de result) des result)
       rads result"

function lemmatizeRaw :: "unicode \<Rightarrow> Lemmatizer \<Rightarrow> gostring \<Rightarrow> resmap option" where
  "lemmatizeRaw U l form0 =
     (let lower = strings_ToLower U form0;
          cntV = Count lower (asc ''v'');
          cntAe0 = Count lower [0x00e6];
          cntOe = Count lower [0x0153];
          cntAe = (if suffix [0x00e6] lower then cntAe0 - 1 else cntAe0);
          form = Deramise form0
      in do {
        result0 \<leftarrow> irreg_probe l form [];
        foldM (\<lambda>i result.
          do { r \<leftarrow> go_slice form 0 (int i);
               d \<leftarrow> go_slice form (int i) (int (length form));
               case map_of (radicals l) r of
                 None \<Rightarrow> Some result
               | Some rads \<Rightarrow>
                   do { result1 \<leftarrow>
                          (if needDoubleI r d
                           then do { nm \<leftarrow> lemmatizeRaw U l (r @ asc ''i'' @ d);
                                     foldIn (int (length r)) nm result }
                           else Some result);
                        case map_of (desinences l) d of
                          None \<Rightarrow> Some result1
                        | Some des \<Rightarrow> matchAll U l cntV cntAe cntOe rads des result1 } })
          [0..<Suc (length form)] result0 })"
  by pat_completeness auto


text \<open>
  Termination of the ii recursion. Cases 2 and 3 double an \<open>i\<close> that stands alone
  (no \<open>i\<close> before or after it), which leaves one isolated \<open>i\<close> less; case 1
  lengthens a form that is itself a key of the radical index, and the index is finite.
  \<open>isolated p s\<close> counts the isolated occurrences of \<open>i\<close> (code point 105) in
  \<open>s\<close>, where \<open>p\<close> tells whether an \<open>i\<close> stands before \<open>s\<close>.
\<close>

fun isolated :: "bool \<Rightarrow> gostring \<Rightarrow> nat" where
  "isolated p [] = 0"
| "isolated p [x] = (if x = 105 \<and> \<not> p then 1 else 0)"
| "isolated p (x # y # ys) =
     (if x = 105 \<and> \<not> p \<and> y \<noteq> 105 then 1 else 0) + isolated (x = 105) (y # ys)"

definition max_key_len :: "(gostring \<times> 'b) list \<Rightarrow> nat" where
  "max_key_len xs = foldr (\<lambda>kv m. max (length (fst kv)) m) xs 0"

definition plain :: "rune \<Rightarrow> bool" where
  "plain c = (map_of deramiseReplacer c = None)"

lemma map_of_key_len: "map_of xs k = Some v \<Longrightarrow> length k \<le> max_key_len xs"
  by (induction xs) (auto simp: max_key_len_def split: if_splits)

lemma isolated_double:
  "d = [] \<or> hd d \<noteq> 105 \<Longrightarrow> (if r = [] then \<not> p else last r \<noteq> 105)
   \<Longrightarrow> Suc (isolated p (r @ 105 # 105 # d)) = isolated p (r @ 105 # d)"
proof (induction r arbitrary: p)
  case Nil
  then show ?case by (cases d) auto
next
  case (Cons x xs)
  note IH = Cons.IH and prems = Cons.prems
  show ?case
  proof (cases xs)
    case Nil
    with prems have x: "x \<noteq> 105" by simp
    have "Suc (isolated False (xs @ 105 # 105 # d)) = isolated False (xs @ 105 # d)"
      by (rule IH) (simp_all add: prems(1) Nil)
    then show ?thesis using Nil x by simp
  next
    case (Cons y ys)
    have "Suc (isolated (x = 105) (xs @ 105 # 105 # d)) = isolated (x = 105) (xs @ 105 # d)"
      by (rule IH) (use prems Cons in simp_all)
    then show ?thesis using Cons by simp
  qed
qed

lemma isolated_extend:
  "isolated p (r @ [105, 105, 105]) = isolated p (r @ [105, 105])"
proof (induction r arbitrary: p)
  case Nil
  show ?case by simp
next
  case (Cons x xs)
  show ?case using Cons.IH [of "x = 105"] by (cases xs) simp_all
qed

lemma plain_or_ramist:
  "plain c \<or> c \<in> {0x4a, 0x6a, 0x76, 0x56, 0x00e6, 0x00c6, 0x0153, 0x0152, 0x1ee5}"
  by (simp add: plain_def deramiseReplacer_def)

lemma Deramise_rune_plain: "list_all plain (Deramise [c])"
proof -
  consider "plain c" | "c \<in> {0x4a, 0x6a, 0x76, 0x56, 0x00e6, 0x00c6, 0x0153, 0x0152, 0x1ee5}"
    using plain_or_ramist by blast
  then show ?thesis
  proof cases
    case 1
    then show ?thesis by (simp add: Deramise_def Replace_def plain_def)
  next
    case 2
    then show ?thesis
      by (elim insertE emptyE)
         (simp_all add: Deramise_def Replace_def plain_def deramiseReplacer_def)
  qed
qed

lemma Deramise_plain: "list_all plain (Deramise s)"
proof (induction s)
  case Nil
  show ?case by (simp add: Deramise_def Replace_def)
next
  case (Cons c s)
  have "Deramise (c # s) = Deramise [c] @ Deramise s"
    using Deramise_append [of "[c]" s] by simp
  then show ?case using Cons Deramise_rune_plain [of c] by simp
qed

lemma plain_Deramise_id: "list_all plain s \<Longrightarrow> Deramise s = s"
  by (induction s) (auto simp: Deramise_def Replace_def plain_def)

lemma plain_i: "plain 105"
  by (simp add: plain_def deramiseReplacer_def)

lemma go_slice_prefix: "go_slice xs 0 (int i) = Some r \<Longrightarrow> r = take i xs \<and> i \<le> length xs"
  by (auto simp: go_slice_def split: if_splits)

lemma go_slice_suffix:
  "go_slice xs (int i) (int (length xs)) = Some d \<Longrightarrow> d = drop i xs \<and> i \<le> length xs"
  by (auto simp: go_slice_def split: if_splits)

lemma go_index_last: "(length r > 0 \<and> go_index r (int (length r) - 1) = Some c) = (r \<noteq> [] \<and> last r = c)"
  by (cases r rule: rev_cases) (auto simp: go_index_def nth_append nat_diff_distrib)

lemma go_index_hd: "(length d > 0 \<and> go_index d 0 = Some c) = (d \<noteq> [] \<and> hd d = c)"
  by (cases d) (auto simp: go_index_def)

lemma needDoubleI_cases:
  "needDoubleI r d =
     ((d = [] \<and> r \<noteq> [] \<and> last r = 105) \<or>
      (d \<noteq> [] \<and> hd d = 105 \<and> \<not> prefix [105, 105] d \<and> \<not> (r \<noteq> [] \<and> last r = 105)) \<or>
      (r \<noteq> [] \<and> last r = 105 \<and> \<not> suffix [105, 105] r \<and> \<not> (d \<noteq> [] \<and> hd d = 105)))"
  unfolding needDoubleI_def Let_def go_index_last go_index_hd by simp

lemma lemmatizeRaw_step:
  assumes key: "map_of rad r = Some rads" and need: "needDoubleI r d"
  shows "isolated False (r @ 105 # d) < isolated False (r @ d) \<or>
         (isolated False (r @ 105 # d) = isolated False (r @ d) \<and> d = [])"
proof -
  consider (a) "d = []" "r \<noteq> []" "last r = 105"
    | (b) "d \<noteq> []" "hd d = 105" "\<not> prefix [105, 105] d" "\<not> (r \<noteq> [] \<and> last r = 105)"
    | (c) "r \<noteq> []" "last r = 105" "\<not> suffix [105, 105] r" "\<not> (d \<noteq> [] \<and> hd d = 105)"
    using need unfolding needDoubleI_cases by blast
  then show ?thesis
  proof cases
    case a
    then obtain r0 where r: "r = r0 @ [105]" by (metis append_butlast_last_id)
    show ?thesis
    proof (cases "r0 \<noteq> [] \<and> last r0 = 105")
      case True
      then obtain r1 where "r0 = r1 @ [105]" by (metis append_butlast_last_id)
      then show ?thesis using a r isolated_extend [of False r1] by simp
    next
      case False
      then have "Suc (isolated False (r0 @ 105 # 105 # [])) = isolated False (r0 @ 105 # [])"
        by (intro isolated_double) auto
      then show ?thesis using a r by simp
    qed
  next
    case b
    then obtain d' where d: "d = 105 # d'" by (cases d) auto
    with b have "d' = [] \<or> hd d' \<noteq> 105" by (cases d') auto
    then have "Suc (isolated False (r @ 105 # 105 # d')) = isolated False (r @ 105 # d')"
      using b(4) by (intro isolated_double) auto
    then show ?thesis using d by simp
  next
    case c
    then obtain r0 where r: "r = r0 @ [105]" by (metis append_butlast_last_id)
    with c have "r0 = [] \<or> last r0 \<noteq> 105"
      by (cases r0 rule: rev_cases) (auto simp: suffix_def)
    then have "Suc (isolated False (r0 @ 105 # 105 # d)) = isolated False (r0 @ 105 # d)"
      using c(4) by (intro isolated_double) auto
    then show ?thesis using r by simp
  qed
qed

lemma lemmatizeRaw_total: "All lemmatizeRaw_dom"
proof (relation "measures [\<lambda>(U, l, f). isolated False (Deramise f),
                           \<lambda>(U, l, f). Suc (max_key_len (radicals l)) - length (Deramise f)]")
  show "wf (measures [\<lambda>(U, l, f). isolated False (Deramise f),
                      \<lambda>(U, l, f). Suc (max_key_len (radicals l)) - length (Deramise f)])"
    by simp
next
  fix U :: unicode and l :: Lemmatizer and form0 F :: gostring and i :: nat
    and r d :: gostring and rads
  assume F: "F = Deramise form0"
    and r: "go_slice F 0 (int i) = Some r"
    and d: "go_slice F (int i) (int (length F)) = Some d"
    and key: "map_of (radicals l) r = Some rads"
    and need: "needDoubleI r d"
  have rd: "r = take i F" "d = drop i F" "i \<le> length F"
    using go_slice_prefix [OF r] go_slice_suffix [OF d] by simp_all
  then have F_split: "F = r @ d" by simp
  have "list_all plain F" using F Deramise_plain by simp
  then have "list_all plain (r @ 105 # d)"
    using rd plain_i by (auto simp: list_all_iff dest: in_set_takeD in_set_dropD)
  then have nf: "Deramise (r @ asc ''i'' @ d) = r @ 105 # d"
    using plain_Deramise_id by simp
  have len: "length r \<le> max_key_len (radicals l)" using key by (rule map_of_key_len)
  from lemmatizeRaw_step [OF key need]
  show "((U, l, r @ asc ''i'' @ d), (U, l, form0))
        \<in> measures [\<lambda>(U, l, f). isolated False (Deramise f),
                     \<lambda>(U, l, f). Suc (max_key_len (radicals l)) - length (Deramise f)]"
    using nf F [symmetric] F_split len by auto
qed

termination lemmatizeRaw
  by (rule lemmatizeRaw_total)

declare lemmatizeRaw.simps [simp del]

section \<open>The fallback cascade (lemmatize.go, lemmatizeMEtape)\<close>

definition enclitics :: "gostring list" where
  "enclitics = [asc ''ne'', asc ''que'', asc ''ue'', asc ''ve'', asc ''st'']"

fun assim_loop :: "(gostring \<times> gostring) list \<Rightarrow> gostring \<Rightarrow> gostring option" where
  "assim_loop [] a = Some a"
| "assim_loop ((pre, assimilated) # rest) a =
     (if prefix pre a
      then do { t \<leftarrow> go_slice a (int (length pre)) (int (length a)); Some (assimilated @ t) }
      else assim_loop rest a)"

definition assim :: "Lemmatizer \<Rightarrow> gostring \<Rightarrow> gostring option" where
  "assim l a = assim_loop (assims l) a"

fun desassim_loop :: "(gostring \<times> gostring) list \<Rightarrow> gostring \<Rightarrow> gostring option" where
  "desassim_loop [] a = Some a"
| "desassim_loop ((unassim, assimilated) # rest) a =
     (if prefix assimilated a
      then do { t \<leftarrow> go_slice a (int (length assimilated)) (int (length a)); Some (unassim @ t) }
      else desassim_loop rest a)"

definition desassim :: "Lemmatizer \<Rightarrow> gostring \<Rightarrow> gostring option" where
  "desassim l a = desassim_loop (assims l) a"

fun decontracte_loop :: "(gostring \<times> gostring) list \<Rightarrow> gostring \<Rightarrow> gostring option" where
  "decontracte_loop [] d = Some d"
| "decontracte_loop ((suf, expanded) # rest) d =
     (if suffix suf d
      then do { t \<leftarrow> go_slice d 0 (int (length d) - int (length suf)); Some (t @ expanded) }
      else decontracte_loop rest d)"

definition decontracte :: "Lemmatizer \<Rightarrow> gostring \<Rightarrow> gostring option" where
  "decontracte l d = decontracte_loop (contractions l) d"

text \<open>\<open>for nl, lsl := range x { mm[nl] = append(mm[nl], lsl...) }\<close>\<close>

definition mergeInto :: "resmap \<Rightarrow> resmap \<Rightarrow> resmap" where
  "mergeInto mm x = foldl (\<lambda>mm (nl, lsl). app_res mm nl lsl) mm x"

function lemmatizeMEtape ::
  "unicode \<Rightarrow> Lemmatizer \<Rightarrow> gostring \<Rightarrow> bool \<Rightarrow> int \<Rightarrow> resmap option" where
  "lemmatizeMEtape U l form sentenceStart etape =
     (if form = [] then Some []
      else if etape > 3 then
        do { mm \<leftarrow> lemmatizeRaw U l form;
             up \<leftarrow> (if sentenceStart \<and> length form > 0
                    then do { c \<leftarrow> go_index form 0; Some (IsUpper U c) }
                    else Some False);
             if up
             then do { x \<leftarrow> lemmatizeMEtape U l (strings_ToLower U form) False 4;
                       Some (mergeInto mm x) }
             else Some mm }
      else
        do { mm \<leftarrow> lemmatizeMEtape U l form sentenceStart (etape + 1);
             if etape = 3 then
               do { fd \<leftarrow> decontracte l form;
                    if fd \<noteq> form
                    then do { x \<leftarrow> lemmatizeMEtape U l fd sentenceStart 4;
                              Some (mergeInto mm x) }
                    else Some mm }
             else if etape = 2 then
               do { fa \<leftarrow> assim l form;
                    if fa \<noteq> form
                    then do { x \<leftarrow> lemmatizeMEtape U l fa sentenceStart 3;
                              Some (mergeInto mm x) }
                    else
                      do { fd \<leftarrow> desassim l form;
                           if fd \<noteq> form
                           then do { x \<leftarrow> lemmatizeMEtape U l fd sentenceStart 3;
                                     Some (mergeInto mm x) }
                           else Some mm } }
             else if etape = 1 then
               (if length mm = 0
                then foldM (\<lambda>suf mm.
                       if length mm > 0 then Some mm
                       else if suffix suf form
                       then do { sf \<leftarrow> go_slice form 0 (int (length form) - int (length suf));
                                 if suf = asc ''st''
                                 then lemmatizeMEtape U l (sf @ asc ''s'') sentenceStart 1
                                 else lemmatizeMEtape U l sf sentenceStart 1 }
                       else Some mm)
                     enclitics mm
                else Some mm)
             else if etape = 0 then
               do { low \<leftarrow> (if length mm = 0 \<and> length form > 0
                            then do { c \<leftarrow> go_index form 0; Some (IsLower U c) }
                            else Some False);
                    if low
                    then do { c \<leftarrow> go_index form 0;
                              lemmatizeMEtape U l (form[0 := ToUpper U c]) False 1 }
                    else Some mm }
             else Some mm })"
  by pat_completeness auto


lemma enclitic_shorter:
  assumes "suf \<in> set enclitics" "suffix suf form"
    "go_slice form 0 (int (length form) - int (length suf)) = Some sf"
  shows "length (if suf = asc ''st'' then sf @ asc ''s'' else sf) < length form"
proof -
  have len: "length suf \<le> length form" using assms(2) by (rule suffix_length_le)
  have sf: "length sf = length form - length suf"
    using assms(3) len by (auto simp: go_slice_def split: if_splits)
  have "2 \<le> length suf" using assms(1) by (auto simp: enclitics_def)
  then show ?thesis using sf len assms(1) by (auto simp: enclitics_def)
qed

lemma lemmatizeMEtape_total: "All lemmatizeMEtape_dom"
proof (relation "measures [\<lambda>(U, l, f, s, e). if e > 3 then 0 else nat (4 - e),
                           \<lambda>(U, l, f, s, e). length f,
                           \<lambda>(U, l, f, s, e). if s then 1 else 0]", goal_cases)
  case 1
  show ?case by simp
next
  case 2
  then show ?case by (auto split: if_splits)
next
  case 3
  then show ?case by (auto split: if_splits)
next
  case 4
  then show ?case by (auto split: if_splits)
next
  case 5
  then show ?case by (auto split: if_splits)
next
  case 6
  then show ?case by (auto split: if_splits)
next
  case (7 U l form sentenceStart etape mm suf acc sf)
  then show ?case using enclitic_shorter [of suf form sf] by (auto split: if_splits)
next
  case (8 U l form sentenceStart etape mm suf acc sf)
  then show ?case using enclitic_shorter [of suf form sf] by (auto split: if_splits)
next
  case 9
  then show ?case by (auto split: if_splits)
qed

termination lemmatizeMEtape
  by (rule lemmatizeMEtape_total)

declare lemmatizeMEtape.simps [simp del]

definition lemmatizeM :: "unicode \<Rightarrow> Lemmatizer \<Rightarrow> gostring \<Rightarrow> bool \<Rightarrow> resmap option" where
  "lemmatizeM U l form sentenceStart = lemmatizeMEtape U l form sentenceStart 0"

definition LemmatizeWord :: "unicode \<Rightarrow> Lemmatizer \<Rightarrow> gostring \<Rightarrow> bool \<Rightarrow> resmap option" where
  "LemmatizeWord U l form sentenceStart = lemmatizeM U l form sentenceStart"

subsection \<open>No operation of a query panics\<close>

lemma bind_ok:
  "\<exists>a. x = Some a \<Longrightarrow> (\<And>a. x = Some a \<Longrightarrow> \<exists>b. f a = Some b) \<Longrightarrow> \<exists>b. Option.bind x f = Some b"
  by auto

lemma foldM_ok:
  "(\<And>x acc. x \<in> set xs \<Longrightarrow> \<exists>r. f x acc = Some r) \<Longrightarrow> \<exists>r. foldM f xs a = Some r"
proof (induction xs arbitrary: a)
  case Nil
  show ?case by simp
next
  case (Cons x xs)
  obtain a' where "f x a = Some a'" using Cons.prems [of x a] by auto
  moreover have "\<exists>r. foldM f xs a' = Some r" using Cons.prems by (intro Cons.IH) simp
  ultimately show ?case by simp
qed

lemma mapM_ok:
  "(\<And>x. x \<in> set xs \<Longrightarrow> \<exists>r. f x = Some r) \<Longrightarrow> \<exists>r. mapM f xs = Some r"
proof (induction xs)
  case Nil
  show ?case by simp
next
  case (Cons x xs)
  obtain y where "f x = Some y" using Cons.prems [of x] by auto
  moreover obtain ys where "mapM f xs = Some ys" using Cons by fastforce
  ultimately show ?case by simp
qed

lemma Morpho_ok: "\<exists>s. Morpho l m = Some s"
  by (simp add: Morpho_def go_index_def)

lemma irreg_probe_ok: "\<exists>r. irreg_probe l form result = Some r"
  unfolding irreg_probe_def
  by (auto split: option.splits intro!: foldM_ok bind_ok Morpho_ok)

lemma removeExtraI_ok: "\<exists>r. removeExtraI rLen an = Some r"
  by (simp add: removeExtraI_def Let_def go_slice_def)

lemma foldIn_ok: "\<exists>r. foldIn rLen nm result = Some r"
  unfolding foldIn_def
  by (auto intro!: foldM_ok bind_ok mapM_ok removeExtraI_ok)

lemma tryPair_ok: "\<exists>r. tryPair U l cntV cntAe cntOe rad de result = Some r"
  unfolding tryPair_def Let_def
  by (auto intro!: bind_ok Morpho_ok)

lemma matchAll_ok: "\<exists>r. matchAll U l cntV cntAe cntOe rads des result = Some r"
  unfolding matchAll_def
  by (intro foldM_ok tryPair_ok)

lemma go_slice_split_ok:
  "i \<in> set [0..<Suc (length form)] \<Longrightarrow>
   go_slice form 0 (int i) = Some (take i form) \<and>
   go_slice form (int i) (int (length form)) = Some (drop i form)"
  by (auto simp: go_slice_def)

lemma lemmatizeRaw_ok: "\<exists>m. lemmatizeRaw U l form0 = Some m"
proof (induction U l form0 rule: lemmatizeRaw.induct)
  case (1 U l form0)
  define form where "form = Deramise form0"
  obtain result0 where r0: "irreg_probe l form [] = Some result0"
    using irreg_probe_ok by blast
  have rec: "\<exists>m. lemmatizeRaw U l (take i form @ asc ''i'' @ drop i form) = Some m"
    if "i \<in> set [0..<Suc (length form)]" "map_of (radicals l) (take i form) = Some rads"
       "needDoubleI (take i form) (drop i form)" for i rads
    using "1.IH" [OF refl refl refl refl refl refl r0 [unfolded form_def] that(1) [unfolded form_def]]
      go_slice_split_ok [OF that(1)] that(2,3)
    unfolding form_def by blast
  show ?case
    apply (subst lemmatizeRaw.simps)
    apply (simp only: Let_def form_def [symmetric] r0 Option.bind.simps)
    apply (rule foldM_ok)
    subgoal for i acc
      using rec [of i]
      by (auto simp: go_slice_split_ok split: option.splits
               intro!: bind_ok foldIn_ok matchAll_ok)
    done
qed

lemma assim_loop_ok: "\<exists>r. assim_loop tab a = Some r"
  by (induction tab a rule: assim_loop.induct)
     (auto simp: go_slice_def dest: prefix_length_le)

lemma desassim_loop_ok: "\<exists>r. desassim_loop tab a = Some r"
  by (induction tab a rule: desassim_loop.induct)
     (auto simp: go_slice_def dest: prefix_length_le)

lemma decontracte_loop_ok: "\<exists>r. decontracte_loop tab d = Some r"
  by (induction tab d rule: decontracte_loop.induct)
     (auto simp: go_slice_def dest: suffix_length_le)


lemma assim_ok: "\<exists>r. assim l a = Some r"
  by (simp add: assim_def assim_loop_ok)

lemma desassim_ok: "\<exists>r. desassim l a = Some r"
  by (simp add: desassim_def desassim_loop_ok)

lemma decontracte_ok: "\<exists>r. decontracte l a = Some r"
  by (simp add: decontracte_def decontracte_loop_ok)

lemma go_index_first: "form \<noteq> [] \<Longrightarrow> go_index form 0 = Some (hd form)"
  by (cases form) (simp_all add: go_index_def)

lemma enclitic_slice_ok:
  "suffix suf form \<Longrightarrow> \<exists>sf. go_slice form 0 (int (length form) - int (length suf)) = Some sf"
  by (auto simp: go_slice_def dest: suffix_length_le)

lemma lemmatizeMEtape_ok: "\<exists>m. lemmatizeMEtape U l form sentenceStart etape = Some m"
proof (induction U l form sentenceStart etape rule: lemmatizeMEtape.induct)
  case (1 U l form sentenceStart etape)
  show ?case
  proof (cases "form = []")
    case True
    then show ?thesis by (simp add: lemmatizeMEtape.simps)
  next
    case nonempty: False
    show ?thesis
    proof (cases "etape > 3")
      case True
      obtain mm where mm: "lemmatizeRaw U l form = Some mm" using lemmatizeRaw_ok by blast
      show ?thesis
      proof (cases "sentenceStart \<and> IsUpper U (hd form)")
        case up: True
        have "(if sentenceStart \<and> length form > 0
               then do { c \<leftarrow> go_index form 0; Some (IsUpper U c) }
               else Some False) = Some True"
          using up nonempty by (simp add: go_index_first)
        from "1.IH"(1) [OF nonempty True mm this]
        obtain x where "lemmatizeMEtape U l (strings_ToLower U form) False 4 = Some x" by blast
        then show ?thesis
          using nonempty True mm up
          by (subst lemmatizeMEtape.simps) (simp add: go_index_first)
      next
        case False
        then show ?thesis
          using nonempty True mm
          by (subst lemmatizeMEtape.simps) (auto simp: go_index_first)
      qed
    next
      case low: False
      obtain mm where mm: "lemmatizeMEtape U l form sentenceStart (etape + 1) = Some mm"
        using "1.IH"(2) [OF nonempty low] by blast
      note IH = "1.IH"(3-)[OF nonempty low mm]
      consider (e3) "etape = 3" | (e2) "etape = 2" | (e1) "etape = 1" | (e0) "etape = 0"
        | (other) "etape \<noteq> 3" "etape \<noteq> 2" "etape \<noteq> 1" "etape \<noteq> 0"
        by blast
      then show ?thesis
      proof cases
        case e3
        obtain fd where fd: "decontracte l form = Some fd" using decontracte_ok by blast
        show ?thesis
          using nonempty low mm fd e3 IH(1) [OF e3 fd]
          by (subst lemmatizeMEtape.simps) auto
      next
        case e2
        obtain fa where fa: "assim l form = Some fa" using assim_ok by blast
        obtain fs where fs: "desassim l form = Some fs" using desassim_ok by blast
        show ?thesis
          using nonempty low mm fa fs e2 IH(2) [OF _ e2 fa] IH(3) [OF _ e2 fa _ fs]
          by (subst lemmatizeMEtape.simps) auto
      next
        case e1
        have encl: "\<exists>r. foldM (\<lambda>suf mm.
                       if length mm > 0 then Some mm
                       else if suffix suf form
                       then do { sf \<leftarrow> go_slice form 0 (int (length form) - int (length suf));
                                 if suf = asc ''st''
                                 then lemmatizeMEtape U l (sf @ asc ''s'') sentenceStart 1
                                 else lemmatizeMEtape U l sf sentenceStart 1 }
                       else Some mm) enclitics mm = Some r"
          if empty: "length mm = 0"
        proof (rule foldM_ok)
          fix suf acc
          assume suf: "suf \<in> set enclitics"
          show "\<exists>r. (if length acc > 0 then Some acc
                   else if suffix suf form
                   then do { sf \<leftarrow> go_slice form 0 (int (length form) - int (length suf));
                             if suf = asc ''st''
                             then lemmatizeMEtape U l (sf @ asc ''s'') sentenceStart 1
                             else lemmatizeMEtape U l sf sentenceStart 1 }
                   else Some acc) = Some r"
          proof (cases "\<not> length acc > 0 \<and> suffix suf form")
            case True
            then obtain sf where
              sf: "go_slice form 0 (int (length form) - int (length suf)) = Some sf"
              using enclitic_slice_ok by blast
            show ?thesis
              using True sf e1 IH(4) [OF _ _ e1 empty suf _ _ sf] IH(5) [OF _ _ e1 empty suf _ _ sf]
              by auto
          next
            case False
            then show ?thesis by auto
          qed
        qed
        show ?thesis
          using nonempty low mm e1 encl
          by (subst lemmatizeMEtape.simps) auto
      next
        case e0
        show ?thesis
        proof (cases "length mm = 0 \<and> IsLower U (hd form)")
          case True
          have "(if length mm = 0 \<and> length form > 0
                 then do { c \<leftarrow> go_index form 0; Some (IsLower U c) }
                 else Some False) = Some True"
            using True nonempty by (simp add: go_index_first)
          from IH(6) [OF _ _ _ e0 this TrueI go_index_first [OF nonempty]]
          obtain x where "lemmatizeMEtape U l (form[0 := ToUpper U (hd form)]) False 1 = Some x"
            using e0 by auto
          then show ?thesis
            using nonempty low mm e0 True
            by (subst lemmatizeMEtape.simps) (simp add: go_index_first)
        next
          case False
          then show ?thesis
            using nonempty low mm e0
            by (subst lemmatizeMEtape.simps) (auto simp: go_index_first)
        qed
      next
        case other
        then show ?thesis
          using nonempty low mm
          by (subst lemmatizeMEtape.simps) auto
      qed
    qed
  qed
qed

section \<open>Call relations\<close>

text \<open>
  For a function defined by \<^theory_text>\<open>function\<close>, Isabelle generates the relation
  between an argument and the arguments of the recursive calls that evaluating it makes,
  each under the conditions of the path that leads to the call. \<open>raw_calls caller callee\<close>
  and \<open>cascade_calls caller callee\<close> are these relations for the raw matcher and for the
  cascade: evaluating \<open>caller\<close> makes a direct recursive call on \<open>callee\<close>.
\<close>

definition raw_calls ::
  "unicode \<times> Lemmatizer \<times> gostring \<Rightarrow> unicode \<times> Lemmatizer \<times> gostring \<Rightarrow> bool" where
  "raw_calls caller callee = lemmatizeRaw_rel callee caller"

definition cascade_calls ::
  "unicode \<times> Lemmatizer \<times> gostring \<times> bool \<times> int \<Rightarrow>
   unicode \<times> Lemmatizer \<times> gostring \<times> bool \<times> int \<Rightarrow> bool" where
  "cascade_calls caller callee = lemmatizeMEtape_rel callee caller"

section \<open>Example analyzers\<close>

text \<open>The ASCII part of the case tables, for the examples.\<close>

definition ascii_tables :: unicode where
  "ascii_tables =
     \<lparr>IsUpper = (\<lambda>c. 65 \<le> c \<and> c \<le> 90), IsLower = (\<lambda>c. 97 \<le> c \<and> c \<le> 122),
      ToUpper = (\<lambda>c. if 97 \<le> c \<and> c \<le> 122 then c - 32 else c),
      ToLower = (\<lambda>c. if 65 \<le> c \<and> c \<le> 90 then c + 32 else c)\<rparr>"

definition no_lemma :: Lemma where
  "no_lemma = \<lparr>Key = [], l_Grq = [], l_Gr = [], model = None, l_radicals = [], l_irregs = [],
                morphosIrregExcl = []\<rparr>"

definition no_model :: Model where
  "no_model = \<lparr>Name = [], parent = None, RadicalRules = [], Absents = [], Desinences = [],
                pos = 0\<rparr>"

text \<open>The analyzer as \<open>New\<close> creates it, before any file is loaded.\<close>

definition empty_lemmatizer :: Lemmatizer where
  "empty_lemmatizer =
     \<lparr>morphos = [[]], models = [], lemmas_tab = [], desinences = [], radicals = [],
      irregs = [], variables = [], assims = [], contractions = [],
      lemma_heap = (\<lambda>a. no_lemma), model_heap = (\<lambda>a. no_model)\<rparr>"


text \<open>
  A two-word lexicon: \<open>filius\<close> (lemma 1, model 1, stem \<open>fili\<close>, with the exclusive
  irregular vocative \<open>fili\<close> at slot 2) and \<open>uva\<close> (lemma 2, model 2, stem written
  \<open>uv\<close> with a Ramist \<open>v\<close>). Code points: 299 is i with macron, 301 i with
  breve, 363 u with macron, 365 u with breve.
\<close>

definition rad_fili :: Radical where
  "rad_fili = \<lparr>r_Grq = [102, 299, 108, 301], r_Gr = asc ''fili'', Num = 1, r_Lemma = 1\<rparr>"

definition rad_uv :: Radical where
  "rad_uv = \<lparr>r_Grq = [363, 118], r_Gr = asc ''uv'', Num = 1, r_Lemma = 2\<rparr>"

definition irr_fili :: Irreg where
  "irr_fili = \<lparr>i_Grq = [102, 299, 108, 299], i_Gr = asc ''fili'', Exclusive = True, i_Lemma = 1,
                Morphos = [2]\<rparr>"

definition des_us :: Desinence where
  "des_us = \<lparr>d_Grq = [365, 115], d_Gr = asc ''us'', MorphoNum = 1, RadNum = 1, d_Model = Some 1\<rparr>"

definition des_e :: Desinence where
  "des_e = \<lparr>d_Grq = asc ''e'', d_Gr = asc ''e'', MorphoNum = 2, RadNum = 1, d_Model = Some 1\<rparr>"

definition des_i :: Desinence where
  "des_i = \<lparr>d_Grq = [299], d_Gr = asc ''i'', MorphoNum = 4, RadNum = 1, d_Model = Some 1\<rparr>"

definition des_a :: Desinence where
  "des_a = \<lparr>d_Grq = asc ''a'', d_Gr = asc ''a'', MorphoNum = 1, RadNum = 1, d_Model = Some 2\<rparr>"

definition lemma_filius :: Lemma where
  "lemma_filius =
     \<lparr>Key = asc ''filius'', l_Grq = [102, 299, 108, 301, 365, 115], l_Gr = asc ''filius'',
      model = Some 1, l_radicals = [(1, [rad_fili])], l_irregs = [irr_fili],
      morphosIrregExcl = [2]\<rparr>"

definition lemma_uva :: Lemma where
  "lemma_uva =
     \<lparr>Key = asc ''uua'', l_Grq = [363, 118, 97], l_Gr = asc ''uva'',
      model = Some 2, l_radicals = [(1, [rad_uv])], l_irregs = [], morphosIrregExcl = []\<rparr>"

definition model_lupus :: Model where
  "model_lupus =
     \<lparr>Name = asc ''lupus'', parent = None, RadicalRules = [(1, asc ''2'')], Absents = [],
      Desinences = [(1, [des_us]), (2, [des_e]), (4, [des_i])], pos = 0\<rparr>"

definition model_uita :: Model where
  "model_uita =
     \<lparr>Name = asc ''uita'', parent = None, RadicalRules = [(1, asc ''1'')], Absents = [],
      Desinences = [(1, [des_a])], pos = 0\<rparr>"

definition ex_lemmatizer :: Lemmatizer where
  "ex_lemmatizer =
     \<lparr>morphos = [[], asc ''nominatif singulier'', asc ''vocatif singulier'',
                 asc ''accusatif singulier'', asc ''genitif singulier''],
      models = [(asc ''lupus'', 1), (asc ''uita'', 2)],
      lemmas_tab = [(asc ''filius'', 1), (asc ''uua'', 2)],
      desinences = [(asc ''us'', [des_us]), (asc ''e'', [des_e]), (asc ''i'', [des_i]),
                    (asc ''a'', [des_a])],
      radicals = [(asc ''fili'', [rad_fili]), (asc ''uu'', [rad_uv])],
      irregs = [(asc ''fili'', [irr_fili])],
      variables = [], assims = [], contractions = [],
      lemma_heap = (\<lambda>a. if a = 1 then lemma_filius else if a = 2 then lemma_uva else no_lemma),
      model_heap = (\<lambda>a. if a = 1 then model_lupus else if a = 2 then model_uita else no_model)\<rparr>"

lemma foldM_unchanged:
  "(\<And>x acc. x \<in> set xs \<Longrightarrow> f x acc = Some acc) \<Longrightarrow> foldM f xs a = Some a"
  by (induction xs) auto

lemma lemmatizeRaw_no_index:
  assumes "radicals l = []" "irregs l = []"
  shows "lemmatizeRaw U l form0 = Some []"
  apply (subst lemmatizeRaw.simps)
  apply (simp only: Let_def)
  apply (simp add: irreg_probe_def assms)
  apply (rule foldM_unchanged)
  apply (auto simp: go_slice_def)
  done

lemma ex_pone_stage_two: "lemmatizeMEtape ascii_tables empty_lemmatizer (asc ''pone'') False 2 = Some []"
  by (simp add: lemmatizeMEtape.simps lemmatizeRaw_no_index empty_lemmatizer_def
        assim_def desassim_def decontracte_def)





section \<open>The ii recursion, split by split\<close>

text \<open>
  Iteration \<open>i\<close> of the split loop of \<open>lemmatizeRaw\<close> cuts the deramised form into
  the stem \<open>form[:i]\<close> and the ending \<open>form[i:]\<close>. It reaches the recursive call when
  the stem is a key of the radical index (otherwise the loop continues at once) and
  \<open>needDoubleI\<close> holds.
\<close>

definition stem_at :: "gostring \<Rightarrow> nat \<Rightarrow> gostring" where
  "stem_at form0 i = take i (Deramise form0)"

definition ending_at :: "gostring \<Rightarrow> nat \<Rightarrow> gostring" where
  "ending_at form0 i = drop i (Deramise form0)"

definition ii_recursion_at :: "Lemmatizer \<Rightarrow> gostring \<Rightarrow> nat \<Rightarrow> bool" where
  "ii_recursion_at l form0 i =
     (i \<le> length (Deramise form0) \<and>
      map_of (radicals l) (stem_at form0 i) \<noteq> None \<and>
      needDoubleI (stem_at form0 i) (ending_at form0 i))"

text \<open>The three cases in the words of the specification.\<close>

definition case_a :: "gostring \<Rightarrow> gostring \<Rightarrow> bool" where
  "case_a stem ending = (ending = [] \<and> suffix (asc ''i'') stem)"

definition case_b :: "gostring \<Rightarrow> gostring \<Rightarrow> bool" where
  "case_b stem ending =
     (prefix (asc ''i'') ending \<and> \<not> prefix (asc ''ii'') ending \<and> \<not> suffix (asc ''i'') stem)"

definition case_c :: "gostring \<Rightarrow> gostring \<Rightarrow> bool" where
  "case_c stem ending =
     (suffix (asc ''i'') stem \<and> \<not> suffix (asc ''ii'') stem \<and> \<not> prefix (asc ''i'') ending)"

definition exactly_one :: "bool \<Rightarrow> bool \<Rightarrow> bool \<Rightarrow> bool" where
  "exactly_one a b c = ((a \<and> \<not> b \<and> \<not> c) \<or> (b \<and> \<not> a \<and> \<not> c) \<or> (c \<and> \<not> a \<and> \<not> b))"

lemma suffix_single: "suffix [c] r = (r \<noteq> [] \<and> last r = c)"
  by (cases r rule: rev_cases) (auto simp: suffix_def)

lemma prefix_single: "prefix [c] d = (d \<noteq> [] \<and> hd d = c)"
  by (cases d) auto

lemma needDoubleI_spec: "needDoubleI r d = (case_a r d \<or> case_b r d \<or> case_c r d)"
  unfolding needDoubleI_cases case_a_def case_b_def case_c_def
  by (simp add: suffix_single prefix_single)

lemma lemmatizeRaw_rel_iff:
  "lemmatizeRaw_rel callee (U, l, form0) =
     (\<exists>i. ii_recursion_at l form0 i \<and>
          callee = (U, l, stem_at form0 i @ asc ''i'' @ ending_at form0 i))"
proof
  assume "lemmatizeRaw_rel callee (U, l, form0)"
  then show "\<exists>i. ii_recursion_at l form0 i \<and>
          callee = (U, l, stem_at form0 i @ asc ''i'' @ ending_at form0 i)"
  proof (cases rule: lemmatizeRaw_rel.cases)
    case (1 lower cntV cntAe0 cntOe cntAe form a i acc r d rads)
    then have "r = take i form" "d = drop i form" "i \<le> length form"
      using go_slice_prefix [of form i r] go_slice_suffix [of form i d] by simp_all
    with 1 have "ii_recursion_at l form0 i"
      by (simp add: ii_recursion_at_def stem_at_def ending_at_def)
    moreover have "callee = (U, l, stem_at form0 i @ asc ''i'' @ ending_at form0 i)"
      using 1 \<open>r = take i form\<close> \<open>d = drop i form\<close> by (simp add: stem_at_def ending_at_def)
    ultimately show ?thesis by blast
  qed
next
  assume "\<exists>i. ii_recursion_at l form0 i \<and>
          callee = (U, l, stem_at form0 i @ asc ''i'' @ ending_at form0 i)"
  then obtain i where i: "ii_recursion_at l form0 i"
    and callee: "callee = (U, l, stem_at form0 i @ asc ''i'' @ ending_at form0 i)" by blast
  define form where "form = Deramise form0"
  obtain a where a: "irreg_probe l form [] = Some a" using irreg_probe_ok by blast
  from i have mem: "i \<in> set [0..<Suc (length form)]"
    by (auto simp: ii_recursion_at_def form_def)
  from i obtain rads where rads: "map_of (radicals l) (take i form) = Some rads"
    by (auto simp: ii_recursion_at_def stem_at_def form_def)
  from i have need: "needDoubleI (take i form) (drop i form)"
    by (simp add: ii_recursion_at_def stem_at_def ending_at_def form_def)
  have "lemmatizeRaw_rel (U, l, take i form @ asc ''i'' @ drop i form) (U, l, form0)"
    using go_slice_split_ok [OF mem]
    by (intro lemmatizeRaw_rel.intros [OF refl refl refl refl refl form_def a mem _ _ rads need])
       simp_all
  then show "lemmatizeRaw_rel callee (U, l, form0)"
    by (simp add: callee stem_at_def ending_at_def form_def)
qed

lemma ex_split_3:
  "stem_at (asc ''fili'') 3 = asc ''fil'' \<and> ending_at (asc ''fili'') 3 = asc ''i''"
  by (simp add: stem_at_def ending_at_def Deramise_def Replace_def deramiseReplacer_def)

lemma ex_split_4:
  "stem_at (asc ''fili'') 4 = asc ''fili'' \<and> ending_at (asc ''fili'') 4 = []"
  by (simp add: stem_at_def ending_at_def Deramise_def Replace_def deramiseReplacer_def)

lemma ex_cases_3:
  "\<not> case_a (asc ''fil'') (asc ''i'') \<and> case_b (asc ''fil'') (asc ''i'') \<and>
   \<not> case_c (asc ''fil'') (asc ''i'')"
  by (simp add: case_a_def case_b_def case_c_def suffix_single)

lemma ex_cases_4:
  "case_a (asc ''fili'') [] \<and> \<not> case_b (asc ''fili'') [] \<and> case_c (asc ''fili'') []"
  by (simp add: case_a_def case_b_def case_c_def suffix_to_prefix)

lemma ex_not_triggered_3: "\<not> ii_recursion_at ex_lemmatizer (asc ''fili'') 3"
  unfolding ii_recursion_at_def
  by (simp only: ex_split_3) (simp add: ex_lemmatizer_def)

lemma ex_triggered_4: "ii_recursion_at ex_lemmatizer (asc ''fili'') 4"
  unfolding ii_recursion_at_def needDoubleI_spec
  by (simp only: ex_split_4 ex_cases_4)
     (simp add: ex_lemmatizer_def Deramise_def Replace_def deramiseReplacer_def)

section \<open>The vowel-quantity check in the words of the specification\<close>
















section \<open>Loading the morphological descriptions (loadMorphos)\<close>

text \<open>
  The model starts from the lines the scanner yields for the opened file; opening the
  file (and the fallback to \<open>morphos.la\<close>) is outside the model.
\<close>

fun loadMorphos_lines :: "gostring list \<Rightarrow> gostring list \<Rightarrow> gostring list option" where
  "loadMorphos_lines [] ms = Some ms"
| "loadMorphos_lines (line # rest) ms =
     (if prefix (asc ''! --- '') line then Some ms
      else if prefix (asc ''!'') line then loadMorphos_lines rest ms
      else (let idx = Index line (of_char CHR '':'')
            in if idx < 0 then loadMorphos_lines rest ms
               else do { s \<leftarrow> go_slice line (idx + 1) (int (length line));
                         loadMorphos_lines rest (ms @ [s]) }))"

definition loadMorphos :: "gostring list \<Rightarrow> Lemmatizer \<Rightarrow> Lemmatizer option" where
  "loadMorphos lines l =
     (case loadMorphos_lines lines (morphos l) of
        None \<Rightarrow> None
      | Some ms \<Rightarrow> Some (l\<lparr>morphos := ms\<rparr>))"

text \<open>
  The lines that contribute a description: those before the first line that starts with
  \<open>"! --- "\<close>, that do not start with \<open>"!"\<close> and contain a colon. The description of
  such a line is its text after the first colon.
\<close>

definition accepted_lines :: "gostring list \<Rightarrow> gostring list" where
  "accepted_lines lines =
     filter (\<lambda>line. \<not> prefix (asc ''!'') line \<and> of_char CHR '':'' \<in> set line)
       (takeWhile (\<lambda>line. \<not> prefix (asc ''! --- '') line) lines)"

definition description :: "gostring \<Rightarrow> gostring" where
  "description line = tl (dropWhile (\<lambda>c. c \<noteq> of_char CHR '':'') line)"

lemma Index_absent: "c \<notin> set s \<Longrightarrow> Index s c = -1"
  by (induction s) (auto simp: Let_def)

lemma Index_present:
  "c \<in> set s \<Longrightarrow> 0 \<le> Index s c \<and> Index s c < int (length s) \<and>
     drop (Suc (nat (Index s c))) s = tl (dropWhile (\<lambda>x. x \<noteq> c) s)"
proof (induction s)
  case Nil
  then show ?case by simp
next
  case (Cons x xs)
  show ?case
  proof (cases "x = c")
    case True
    then show ?thesis by simp
  next
    case False
    with Cons.prems have "c \<in> set xs" by simp
    from Cons.IH [OF this] False show ?thesis
      by (simp add: Let_def nat_add_distrib)
  qed
qed

lemma go_slice_from:
  "0 \<le> lo \<Longrightarrow> lo \<le> int (length xs) \<Longrightarrow>
   go_slice xs lo (int (length xs)) = Some (drop (nat lo) xs)"
  by (simp add: go_slice_def nat_diff_distrib)

lemma loadMorphos_lines_eq:
  "loadMorphos_lines lines ms = Some (ms @ map description (accepted_lines lines))"
proof (induction lines arbitrary: ms)
  case Nil
  show ?case by (simp add: accepted_lines_def)
next
  case (Cons line rest)
  show ?case
  proof (cases "prefix (asc ''! --- '') line")
    case True
    then show ?thesis by (simp add: accepted_lines_def)
  next
    case cont: False
    show ?thesis
    proof (cases "prefix (asc ''!'') line")
      case True
      then show ?thesis using cont Cons.IH [of ms] by (simp add: accepted_lines_def)
    next
      case nocomment: False
      show ?thesis
      proof (cases "of_char CHR '':'' \<in> set line")
        case False
        then show ?thesis
          using cont nocomment Cons.IH [of ms] Index_absent [of "of_char CHR '':''" line]
          by (simp add: accepted_lines_def)
      next
        case True
        from Index_present [OF True]
        have "go_slice line (Index line (of_char CHR '':'') + 1) (int (length line)) =
              Some (description line)"
          by (subst go_slice_from) (simp_all add: description_def nat_add_distrib)
        then show ?thesis
          using cont nocomment True Cons.IH [of "ms @ [description line]"]
            Index_present [OF True]
          by (simp add: accepted_lines_def Let_def)
      qed
    qed
  qed
qed

lemma loadMorphos_eq:
  "loadMorphos lines l = Some (l\<lparr>morphos := morphos l @ map description (accepted_lines lines)\<rparr>)"
  by (simp add: loadMorphos_def loadMorphos_lines_eq)

lemma Morpho_loaded:
  assumes "morphos l = [[]]" "1 \<le> k" "k \<le> length (accepted_lines lines)"
  shows "Morpho (l\<lparr>morphos := morphos l @ map description (accepted_lines lines)\<rparr>) (int k) =
           Some (description (accepted_lines lines ! (k - 1)))"
  using assms by (cases k) (simp_all add: Morpho_def go_index_def nth_append nat_add_distrib)

text \<open>Two description lines whose numbers are not in file order.\<close>

definition swapped_morphos :: "gostring list" where
  "swapped_morphos = [asc ''2:vocatif singulier'', asc ''1:nominatif singulier'']"

lemma loadMorphos_swapped:
  "loadMorphos swapped_morphos empty_lemmatizer =
     Some (empty_lemmatizer\<lparr>morphos := [[], asc ''vocatif singulier'', asc ''nominatif singulier'']\<rparr>)"
  by (simp add: loadMorphos_eq swapped_morphos_def accepted_lines_def description_def
        empty_lemmatizer_def)

section \<open>The inflection table (inflectionTable, inflectedForms, unique)\<close>

text \<open>\<open>unique\<close>: the \<open>seen\<close> map of the source holds exactly the strings already
  in \<open>out\<close>.\<close>

fun unique_loop :: "gostring list \<Rightarrow> gostring list \<Rightarrow> gostring list" where
  "unique_loop [] out = out"
| "unique_loop (s # ss) out =
     (if s \<in> set out then unique_loop ss out else unique_loop ss (out @ [s]))"

definition unique :: "gostring list \<Rightarrow> gostring list" where
  "unique ss = unique_loop ss []"

text \<open>A nil \<open>*Lemma\<close> argument is \<open>None\<close>; a nil slice is the empty list.\<close>

definition inflectedForms :: "Lemmatizer \<Rightarrow> nat option \<Rightarrow> int \<Rightarrow> gostring list" where
  "inflectedForms l lemma_ptr morphoIdx =
     (case lemma_ptr of
        None \<Rightarrow> []
      | Some a \<Rightarrow>
          (let lem = lemma_heap l a
           in case model lem of
                None \<Rightarrow> []
              | Some ma \<Rightarrow>
                  (let m = model_heap l ma;
                       (irreqGrq, exclusive) = irregAt lem morphoIdx
                   in if exclusive then (if irreqGrq \<noteq> [] then [irreqGrq] else [])
                      else
                        (let forms = (if irreqGrq \<noteq> [] then [irreqGrq] else []);
                             forms = foldl (\<lambda>forms d.
                                       foldl (\<lambda>forms rad. forms @ [r_Grq rad @ d_Grq d])
                                         forms (RadicalsAt lem (RadNum d)))
                                     forms (DesinencesAt m morphoIdx)
                         in unique forms))))"

record InflectionTable =
  t_Lemma :: nat
  Cells :: "(int \<times> gostring list) list"

text \<open>\<open>m[k] = v\<close> on an association list.\<close>

fun map_put :: "'k \<Rightarrow> 'v \<Rightarrow> ('k \<times> 'v) list \<Rightarrow> ('k \<times> 'v) list" where
  "map_put k v [] = [(k, v)]"
| "map_put k v ((k', v') # rest) =
     (if k' = k then (k, v) # rest else (k', v') # map_put k v rest)"

definition inflectionTable :: "Lemmatizer \<Rightarrow> nat option \<Rightarrow> InflectionTable option" where
  "inflectionTable l lemma_ptr =
     (case lemma_ptr of
        None \<Rightarrow> None
      | Some a \<Rightarrow>
          (case model (lemma_heap l a) of
             None \<Rightarrow> None
           | Some ma \<Rightarrow>
               Some \<lparr>t_Lemma = a,
                     Cells = foldl (\<lambda>cells (mn, ds).
                               (let forms = inflectedForms l (Some a) mn
                                in if length forms > 0 then map_put mn forms cells else cells))
                             [] (Desinences (model_heap l ma))\<rparr>))"

section \<open>Exclusive irregulars\<close>

text \<open>
  \<open>addIrreg\<close> is the only place that changes the irregulars of a lemma and its mask of
  exclusive slots; it keeps every slot of every exclusive irregular in the mask.
\<close>

definition excl_recorded :: "Lemma \<Rightarrow> bool" where
  "excl_recorded lem =
     (\<forall>irr \<in> set (l_irregs lem). Exclusive irr \<longrightarrow> set (Morphos irr) \<subseteq> set (morphosIrregExcl lem))"

lemma excl_recorded_fresh: "l_irregs lem = [] \<Longrightarrow> excl_recorded lem"
  by (simp add: excl_recorded_def)

lemma excl_recorded_addIrreg: "excl_recorded lem \<Longrightarrow> excl_recorded (addIrreg irr lem)"
  by (auto simp: excl_recorded_def addIrreg_def Let_def)

lemma has_exclusive_masked:
  "excl_recorded lem \<Longrightarrow> irr \<in> set (l_irregs lem) \<Longrightarrow> Exclusive irr \<Longrightarrow> s \<in> set (Morphos irr)
   \<Longrightarrow> isExclusiveIrreg lem s"
  by (auto simp: excl_recorded_def isExclusiveIrreg_def)

text \<open>The analyses of a result map, each with the lemma it is attributed to.\<close>

definition entries :: "resmap \<Rightarrow> (nat \<times> Analysis) set" where
  "entries res = {(k, an). \<exists>ans. (k, ans) \<in> set res \<and> an \<in> set ans}"

text \<open>
  The analyses that the irregular probe of \<open>lemmatizeRaw\<close> emits on the form
  \<open>form0\<close>. Rule \<open>probe\<close>: the probe's own, one for every slot of every irregular
  indexed under the deramised form, carrying the irregular's marked form, the description
  of the slot and the slot. Rule \<open>retry\<close>: those a recursive call of the ii retry
  got from its probe, each with the inserted \<open>i\<close> removed again, as the caller does
  before it adds them to its result.
\<close>

inductive probe_emits :: "Lemmatizer \<Rightarrow> gostring \<Rightarrow> nat \<Rightarrow> Analysis \<Rightarrow> bool"
  for l :: Lemmatizer where
  probe: "map_of (irregs l) (Deramise form0) = Some irrs \<Longrightarrow> irr \<in> set irrs \<Longrightarrow>
          mn \<in> set (Morphos irr) \<Longrightarrow> Morpho l mn = Some desc \<Longrightarrow>
          probe_emits l form0 (i_Lemma irr)
            \<lparr>FormWithMarks = i_Grq irr, MorphoDescription = desc, MorphoIndex = mn\<rparr>"
| retry: "ii_recursion_at l form0 i \<Longrightarrow>
          probe_emits l (stem_at form0 i @ asc ''i'' @ ending_at form0 i) k an \<Longrightarrow>
          removeExtraI (int (length (stem_at form0 i))) an = Some an' \<Longrightarrow>
          probe_emits l form0 k an'"

code_pred probe_emits .

text \<open>Every analysis of \<open>res\<close> at a slot that its lemma masks satisfies \<open>P\<close>.\<close>

definition masked_only :: "Lemmatizer \<Rightarrow> (nat \<Rightarrow> Analysis \<Rightarrow> bool) \<Rightarrow> resmap \<Rightarrow> bool" where
  "masked_only l P res =
     (\<forall>(k, an) \<in> entries res.
        isExclusiveIrreg (lemma_heap l k) (MorphoIndex an) \<longrightarrow> P k an)"

lemma entries_Nil [simp]: "entries [] = {}"
  by (simp add: entries_def)

lemma entries_app_res: "entries (app_res res k ans) = entries res \<union> {k} \<times> set ans"
  by (induction res k ans rule: app_res.induct) (auto simp: entries_def)

lemma foldM_inv:
  "P a \<Longrightarrow> (\<And>x acc acc'. x \<in> set xs \<Longrightarrow> P acc \<Longrightarrow> f x acc = Some acc' \<Longrightarrow> P acc')
   \<Longrightarrow> foldM f xs a = Some r \<Longrightarrow> P r"
proof (induction xs arbitrary: a)
  case Nil
  then show ?case by simp
next
  case (Cons x xs)
  from Cons.prems(3) obtain a' where a': "f x a = Some a'" and r: "foldM f xs a' = Some r"
    by (auto split: option.splits)
  have "P a'" using Cons.prems(2) [of x a a'] Cons.prems(1) a' by simp
  moreover have "\<And>y acc acc'. y \<in> set xs \<Longrightarrow> P acc \<Longrightarrow> f y acc = Some acc' \<Longrightarrow> P acc'"
    using Cons.prems(2) by (meson list.set_intros(2))
  ultimately show ?case using Cons.IH [of a'] r by blast
qed

lemma mapM_set:
  "mapM f xs = Some ys \<Longrightarrow> y \<in> set ys \<Longrightarrow> \<exists>x \<in> set xs. f x = Some y"
proof (induction xs arbitrary: ys)
  case Nil
  then show ?case by simp
next
  case (Cons x xs)
  then show ?case by (auto split: option.splits)
qed

lemma removeExtraI_index: "removeExtraI rLen an = Some an' \<Longrightarrow> MorphoIndex an' = MorphoIndex an"
  by (auto simp: removeExtraI_def Let_def Option.bind_eq_Some_conv split: if_splits)

lemma removeExtraI_description:
  "removeExtraI rLen an = Some an' \<Longrightarrow> MorphoDescription an' = MorphoDescription an"
  by (auto simp: removeExtraI_def Let_def Option.bind_eq_Some_conv split: if_splits)

lemma removeExtraI_subseq:
  assumes "removeExtraI rLen an = Some an'"
  shows "subseq (FormWithMarks an') (FormWithMarks an)"
proof (cases "rLen > 0 \<and> rLen - 1 < int (length (FormWithMarks an))")
  case False
  then show ?thesis using assms by (auto simp: removeExtraI_def Let_def)
next
  case True
  define g where "g = FormWithMarks an"
  define n where "n = nat (rLen - 1)"
  have rl: "rLen = int (Suc n)" "n < length g"
    using True by (auto simp: n_def g_def)
  have "FormWithMarks an' = take n g @ drop (Suc n) g"
    using assms True rl unfolding removeExtraI_def Let_def g_def [symmetric]
    by (auto simp: go_slice_def Option.bind_eq_Some_conv nat_add_distrib split: if_splits)
  moreover have "subseq (take n g @ drop (Suc n) g) (take n g @ drop n g)"
  proof (rule list_emb_append_mono)
    show "subseq (take n g) (take n g)" by simp
    have "drop n g = g ! n # drop (Suc n) g"
      using rl(2) by (simp add: Cons_nth_drop_Suc)
    moreover have "subseq (drop (Suc n) g) (g ! n # drop (Suc n) g)"
      by (rule list_emb_Cons) simp
    ultimately show "subseq (drop (Suc n) g) (drop n g)" by simp
  qed
  ultimately show ?thesis by (simp add: g_def)
qed

text \<open>
  Where an analysis of the probe comes from: an irregular of its lemma in the index
  covers its slot, its description is the description of that slot, and its marked form
  is the marked form of the irregular, less the code points the ii retry removed.
\<close>

lemma probe_emits_origin:
  assumes "probe_emits l form0 k an"
  shows "\<exists>key irrs irr. map_of (irregs l) key = Some irrs \<and> irr \<in> set irrs \<and>
           i_Lemma irr = k \<and> MorphoIndex an \<in> set (Morphos irr) \<and>
           Morpho l (MorphoIndex an) = Some (MorphoDescription an) \<and>
           subseq (FormWithMarks an) (i_Grq irr)"
  using assms
proof (induction rule: probe_emits.induct)
  case (probe form0 irrs irr mn desc)
  then show ?case by force
next
  case (retry form0 i k an an')
  from retry.IH obtain key irrs irr where
    o: "map_of (irregs l) key = Some irrs" "irr \<in> set irrs" "i_Lemma irr = k"
       "MorphoIndex an \<in> set (Morphos irr)"
       "Morpho l (MorphoIndex an) = Some (MorphoDescription an)"
       "subseq (FormWithMarks an) (i_Grq irr)"
    by blast
  have "subseq (FormWithMarks an') (i_Grq irr)"
    using removeExtraI_subseq [OF retry.hyps(3)] o(6) by (rule subseq_order.order_trans)
  with o removeExtraI_index [OF retry.hyps(3)] removeExtraI_description [OF retry.hyps(3)]
  show ?case by force
qed

lemma irreg_probe_masked:
  assumes "masked_only l P result" "irreg_probe l form result = Some res"
    and emit: "\<And>irrs irr mn desc. map_of (irregs l) form = Some irrs \<Longrightarrow> irr \<in> set irrs \<Longrightarrow>
                 mn \<in> set (Morphos irr) \<Longrightarrow> Morpho l mn = Some desc \<Longrightarrow>
                 P (i_Lemma irr)
                   \<lparr>FormWithMarks = i_Grq irr, MorphoDescription = desc, MorphoIndex = mn\<rparr>"
  shows "masked_only l P res"
proof (cases "map_of (irregs l) form")
  case None
  then show ?thesis using assms(1,2) by (simp add: irreg_probe_def)
next
  case (Some irrs)
  have "foldM (\<lambda>irr result.
            foldM (\<lambda>mn result.
              do { desc \<leftarrow> Morpho l mn;
                   Some (app_res result (i_Lemma irr)
                     [\<lparr>FormWithMarks = i_Grq irr, MorphoDescription = desc, MorphoIndex = mn\<rparr>]) })
              (Morphos irr) result)
            irrs result = Some res"
    using assms(2) Some by (simp add: irreg_probe_def)
  then show ?thesis
  proof (rule foldM_inv [rotated 2])
    show "masked_only l P result" by (rule assms(1))
  next
    fix irr acc acc'
    assume irr: "irr \<in> set irrs" and acc: "masked_only l P acc"
      and step: "foldM (\<lambda>mn result.
              do { desc \<leftarrow> Morpho l mn;
                   Some (app_res result (i_Lemma irr)
                     [\<lparr>FormWithMarks = i_Grq irr, MorphoDescription = desc, MorphoIndex = mn\<rparr>]) })
              (Morphos irr) acc = Some acc'"
    from step show "masked_only l P acc'"
    proof (rule foldM_inv [rotated 2])
      show "masked_only l P acc" by (rule acc)
    next
      fix mn r r'
      assume mn: "mn \<in> set (Morphos irr)" and r: "masked_only l P r"
        and eq: "do { desc \<leftarrow> Morpho l mn;
              Some (app_res r (i_Lemma irr)
                [\<lparr>FormWithMarks = i_Grq irr, MorphoDescription = desc, MorphoIndex = mn\<rparr>]) } = Some r'"
      from eq obtain desc where desc: "Morpho l mn = Some desc"
        and r': "r' = app_res r (i_Lemma irr)
                [\<lparr>FormWithMarks = i_Grq irr, MorphoDescription = desc, MorphoIndex = mn\<rparr>]"
        by (auto simp: Option.bind_eq_Some_conv)
      show "masked_only l P r'"
        using r emit [OF Some irr mn desc]
        unfolding r' masked_only_def entries_app_res by auto
    qed
  qed
qed

lemma foldIn_masked:
  assumes "masked_only l P result" "masked_only l Q nm"
    "foldIn rLen nm result = Some res"
    and edit: "\<And>k an an'. Q k an \<Longrightarrow> removeExtraI rLen an = Some an' \<Longrightarrow> P k an'"
  shows "masked_only l P res"
  using assms(3) unfolding foldIn_def
proof (rule foldM_inv [rotated 2])
  show "masked_only l P result" by (rule assms(1))
next
  fix x acc acc'
  assume x: "x \<in> set nm" and acc: "masked_only l P acc"
    and step: "(case x of (nl, lsl) \<Rightarrow> \<lambda>result.
                 do { lsl' \<leftarrow> mapM (removeExtraI rLen) lsl; Some (app_res result nl lsl') }) acc
               = Some acc'"
  obtain nl lsl where xeq: "x = (nl, lsl)" by (cases x)
  from step xeq obtain lsl' where lsl': "mapM (removeExtraI rLen) lsl = Some lsl'"
    and acc': "acc' = app_res acc nl lsl'"
    by (auto simp: Option.bind_eq_Some_conv)
  show "masked_only l P acc'"
    unfolding masked_only_def acc' entries_app_res
  proof (intro ballI, clarify)
    fix k an
    assume mem: "(k, an) \<in> entries acc \<union> {nl} \<times> set lsl'"
      and ex: "isExclusiveIrreg (lemma_heap l k) (MorphoIndex an)"
    show "P k an"
    proof (cases "(k, an) \<in> entries acc")
      case True
      then show ?thesis using acc ex by (auto simp: masked_only_def)
    next
      case False
      with mem have k: "k = nl" and an: "an \<in> set lsl'" by auto
      from mapM_set [OF lsl' an] obtain an0 where an0: "an0 \<in> set lsl"
        and rem: "removeExtraI rLen an0 = Some an" by blast
      have idx: "MorphoIndex an = MorphoIndex an0" using removeExtraI_index [OF rem] .
      have "(nl, an0) \<in> entries nm" using x xeq an0 by (auto simp: entries_def)
      then have "Q nl an0"
        using assms(2) ex k idx by (auto simp: masked_only_def)
      then show ?thesis using edit [OF _ rem] k by simp
    qed
  qed
qed

lemma tryPair_masked:
  assumes "masked_only l P result" "tryPair U l cntV cntAe cntOe rad de result = Some res"
  shows "masked_only l P res"
  using assms
  by (auto simp: tryPair_def Let_def masked_only_def entries_app_res
        Option.bind_eq_Some_conv split: if_splits)

lemma matchAll_masked:
  assumes "masked_only l P result"
    "matchAll U l cntV cntAe cntOe rads des result = Some res"
  shows "masked_only l P res"
  using assms(2) unfolding matchAll_def
proof (rule foldM_inv [rotated 2])
  show "masked_only l P result" by (rule assms(1))
next
  fix rad acc acc'
  assume "masked_only l P acc"
    and "foldM (\<lambda>de result. tryPair U l cntV cntAe cntOe rad de result) des acc = Some acc'"
  from this(2) this(1) show "masked_only l P acc'"
    by (rule foldM_inv [rotated 2]) (rule tryPair_masked)
qed

lemma masked_Nil: "masked_only l P []"
  by (simp add: masked_only_def)

text \<open>
  The invariant of the raw matcher: whatever it returns at a masked slot, it got from
  the irregular probe.
\<close>

lemma lemmatizeRaw_masked:
  "lemmatizeRaw U l form0 = Some res \<Longrightarrow> masked_only l (probe_emits l form0) res"
proof (induction U l form0 arbitrary: res rule: lemmatizeRaw.induct)
  case (1 U l form0)
  define form where "form = Deramise form0"
  define cntV where "cntV = Count (strings_ToLower U form0) (asc ''v'')"
  define cntOe where "cntOe = Count (strings_ToLower U form0) [0x0153]"
  define cntAe where "cntAe = (if suffix [0x00e6] (strings_ToLower U form0)
                               then Count (strings_ToLower U form0) [0x00e6] - 1
                               else Count (strings_ToLower U form0) [0x00e6])"
  define body where "body = (\<lambda>i result.
          do { r \<leftarrow> go_slice form 0 (int i);
               d \<leftarrow> go_slice form (int i) (int (length form));
               case map_of (radicals l) r of
                 None \<Rightarrow> Some result
               | Some rads \<Rightarrow>
                   do { result1 \<leftarrow>
                          (if needDoubleI r d
                           then do { nm \<leftarrow> lemmatizeRaw U l (r @ asc ''i'' @ d);
                                     foldIn (int (length r)) nm result }
                           else Some result);
                        case map_of (desinences l) d of
                          None \<Rightarrow> Some result1
                        | Some des \<Rightarrow> matchAll U l cntV cntAe cntOe rads des result1 } })"
  have eq: "lemmatizeRaw U l form0 =
              irreg_probe l form [] \<bind> foldM body [0..<Suc (length form)]"
    unfolding form_def cntV_def cntOe_def cntAe_def body_def
    by (subst lemmatizeRaw.simps) (simp only: Let_def)
  from "1.prems" obtain result0 where r0: "irreg_probe l form [] = Some result0"
    and loop: "foldM body [0..<Suc (length form)] result0 = Some res"
    unfolding eq by (auto simp: Option.bind_eq_Some_conv)
  have start: "masked_only l (probe_emits l form0) result0"
    using masked_Nil r0
    by (rule irreg_probe_masked) (auto simp: form_def intro: probe_emits.probe)
  from loop start show ?case
  proof (rule foldM_inv [rotated 2])
    fix i acc acc'
    assume i: "i \<in> set [0..<Suc (length form)]"
      and acc: "masked_only l (probe_emits l form0) acc"
      and step: "body i acc = Some acc'"
    note sl = go_slice_split_ok [OF i]
    show "masked_only l (probe_emits l form0) acc'"
    proof (cases "map_of (radicals l) (take i form)")
      case None
      then show ?thesis using step acc sl by (simp add: body_def)
    next
      case (Some rads)
      from step Some sl obtain result1 where
        r1: "(if needDoubleI (take i form) (drop i form)
              then do { nm \<leftarrow> lemmatizeRaw U l (take i form @ asc ''i'' @ drop i form);
                        foldIn (int (length (take i form))) nm acc }
              else Some acc) = Some result1"
        and rest: "(case map_of (desinences l) (drop i form) of
                      None \<Rightarrow> Some result1
                    | Some des \<Rightarrow> matchAll U l cntV cntAe cntOe rads des result1) = Some acc'"
        by (auto simp: body_def Option.bind_eq_Some_conv)
      have m1: "masked_only l (probe_emits l form0) result1"
      proof (cases "needDoubleI (take i form) (drop i form)")
        case False
        then show ?thesis using r1 acc by simp
      next
        case True
        with r1 obtain nm where
          nm: "lemmatizeRaw U l (take i form @ asc ''i'' @ drop i form) = Some nm"
          and fi: "foldIn (int (length (take i form))) nm acc = Some result1"
          by (auto simp: Option.bind_eq_Some_conv)
        have trig: "ii_recursion_at l form0 i"
          using i Some True by (auto simp: ii_recursion_at_def stem_at_def ending_at_def form_def)
        have "masked_only l (probe_emits l (take i form @ asc ''i'' @ drop i form)) nm"
          using "1.IH" [OF refl refl refl refl refl refl r0 [unfolded form_def]
              i [unfolded form_def] _ _ _ _ nm [unfolded form_def]]
            sl Some True
          unfolding form_def by blast
        with acc show ?thesis
        proof (rule foldIn_masked [OF _ _ fi])
          fix k an an'
          assume "probe_emits l (take i form @ asc ''i'' @ drop i form) k an"
            and "removeExtraI (int (length (take i form))) an = Some an'"
          then show "probe_emits l form0 k an'"
            using probe_emits.retry [OF trig, of k an an']
            by (simp add: stem_at_def ending_at_def form_def)
        qed
      qed
      show ?thesis
      proof (cases "map_of (desinences l) (drop i form)")
        case None
        then show ?thesis using rest m1 by simp
      next
        case (Some des)
        then show ?thesis using rest matchAll_masked [OF m1] by simp
      qed
    qed
  qed
qed

lemma tryPair_skips_masked:
  "isExclusiveIrreg (lemma_heap l (r_Lemma rad)) (MorphoNum de) \<Longrightarrow>
   tryPair U l cntV cntAe cntOe rad de result = Some result"
  by (simp add: tryPair_def Let_def)

lemma irregAt_loop_find:
  "irregAt_loop irs i =
     (case find (\<lambda>ir. i \<in> set (Morphos ir)) irs of
        None \<Rightarrow> ([], False)
      | Some ir \<Rightarrow> (i_Grq ir, Exclusive ir))"
  by (induction irs) auto

lemma inflectedForms_exclusive:
  assumes "find (\<lambda>ir. s \<in> set (Morphos ir)) (l_irregs (lemma_heap l k)) = Some irr"
    "Exclusive irr" "i_Grq irr \<noteq> []" "model (lemma_heap l k) = Some ma"
  shows "inflectedForms l (Some k) s = [i_Grq irr]"
  using assms by (simp add: inflectedForms_def irregAt_def irregAt_loop_find)

lemma map_of_map_put: "map_of (map_put k v m) = (map_of m)(k \<mapsto> v)"
  by (induction m) (auto simp: fun_eq_iff)

lemma cells_lookup:
  "map_of (foldl (\<lambda>cells (mn, ds). (let forms = F mn
                                   in if length forms > 0 then map_put mn forms cells else cells))
            c0 xs) s =
     (if s \<in> fst ` set xs \<and> F s \<noteq> [] then Some (F s) else map_of c0 s)"
proof (induction xs arbitrary: c0)
  case Nil
  show ?case by simp
next
  case (Cons x xs)
  obtain mn ds where x: "x = (mn, ds)" by (cases x)
  show ?case
    unfolding x foldl_Cons Cons.IH
    by (auto simp: Let_def map_of_map_put)
qed

lemma inflectionTable_cell:
  assumes "model (lemma_heap l k) = Some ma"
  shows "\<exists>tab. inflectionTable l (Some k) = Some tab \<and>
           map_of (Cells tab) s =
             (if s \<in> fst ` set (Desinences (model_heap l ma)) \<and> inflectedForms l (Some k) s \<noteq> []
              then Some (inflectedForms l (Some k) s) else None)"
  using assms cells_lookup [of "inflectedForms l (Some k)" "[]" "Desinences (model_heap l ma)" s]
  by (simp add: inflectionTable_def)

text \<open>
  The example lexicon, with three irregulars added to \<open>uva\<close> by \<open>addIrreg\<close>: an
  exclusive one at slot 3, for which the model of \<open>uva\<close> defines no ending, then a
  non-exclusive and an exclusive one, both at slot 1.
\<close>

definition irr_uvam :: Irreg where
  "irr_uvam = \<lparr>i_Grq = [363, 118, 97, 109], i_Gr = asc ''uvam'', Exclusive = True, i_Lemma = 2,
                Morphos = [3]\<rparr>"

definition irr_uva_plain :: Irreg where
  "irr_uva_plain = \<lparr>i_Grq = [363, 118, 257], i_Gr = asc ''uva'', Exclusive = False, i_Lemma = 2,
                     Morphos = [1]\<rparr>"

definition irr_uva_excl :: Irreg where
  "irr_uva_excl = \<lparr>i_Grq = [363, 118, 259], i_Gr = asc ''uva'', Exclusive = True, i_Lemma = 2,
                    Morphos = [1]\<rparr>"

definition lemma_uva_irr :: Lemma where
  "lemma_uva_irr = addIrreg irr_uva_excl (addIrreg irr_uva_plain (addIrreg irr_uvam lemma_uva))"

definition ex_irr_lemmatizer :: Lemmatizer where
  "ex_irr_lemmatizer =
     ex_lemmatizer
       \<lparr>irregs := [(asc ''fili'', [irr_fili]), (asc ''uuam'', [irr_uvam]),
                   (asc ''uua'', [irr_uva_plain, irr_uva_excl])],
        lemma_heap := (\<lambda>a. if a = 1 then lemma_filius else if a = 2 then lemma_uva_irr
                            else no_lemma)\<rparr>"

definition an_fili_voc :: Analysis where
  "an_fili_voc = \<lparr>FormWithMarks = [102, 299, 108, 299],
                   MorphoDescription = asc ''vocatif singulier'', MorphoIndex = 2\<rparr>"

definition an_fili_gen :: Analysis where
  "an_fili_gen = \<lparr>FormWithMarks = [102, 299, 108, 299],
                   MorphoDescription = asc ''genitif singulier'', MorphoIndex = 4\<rparr>"

lemma ex_lemma_uva_irr:
  "lemma_uva_irr = lemma_uva\<lparr>l_irregs := [irr_uvam, irr_uva_plain, irr_uva_excl],
                              morphosIrregExcl := [3, 1]\<rparr>"
  by (simp add: lemma_uva_irr_def addIrreg_def Let_def lemma_uva_def irr_uvam_def
        irr_uva_plain_def irr_uva_excl_def)

lemma ex_raw_filii:
  "lemmatizeRaw ascii_tables ex_lemmatizer (asc ''filii'') =
     Some [(1, [\<lparr>FormWithMarks = [102, 299, 108, 301, 299],
                 MorphoDescription = asc ''genitif singulier'', MorphoIndex = 4\<rparr>])]"
  by (simp add: lemmatizeRaw.simps Let_def ex_lemmatizer_def irreg_probe_def go_slice_def
        needDoubleI_def go_index_def suffix_to_prefix matchAll_def tryPair_def
        rad_fili_def des_i_def lemma_filius_def isExclusiveIrreg_def vowelCountOK_def
        Morpho_def Deramise_def Replace_def deramiseReplacer_def strings_ToLower_def
        ascii_tables_def Count.simps upt_rec)

lemma ex_raw_fili:
  "lemmatizeRaw ascii_tables ex_lemmatizer (asc ''fili'') = Some [(1, [an_fili_voc, an_fili_gen])]"
  by (simp add: lemmatizeRaw.simps Let_def ex_lemmatizer_def irreg_probe_def go_slice_def
        needDoubleI_def go_index_def suffix_to_prefix matchAll_def tryPair_def
        rad_fili_def des_i_def lemma_filius_def isExclusiveIrreg_def vowelCountOK_def
        Morpho_def Deramise_def Replace_def deramiseReplacer_def strings_ToLower_def
        ascii_tables_def Count.simps upt_rec irr_fili_def foldIn_def removeExtraI_def
        an_fili_voc_def an_fili_gen_def)

lemma ex_filius_irregular:
  "excl_recorded (lemma_heap ex_lemmatizer 1)"
  "irr_fili \<in> set (l_irregs (lemma_heap ex_lemmatizer 1))"
  "Exclusive irr_fili" "2 \<in> set (Morphos irr_fili)"
  "find (\<lambda>ir. 2 \<in> set (Morphos ir)) (l_irregs (lemma_heap ex_lemmatizer 1)) = Some irr_fili"
  "i_Grq irr_fili \<noteq> []" "model (lemma_heap ex_lemmatizer 1) = Some 1"
  "r_Lemma rad_fili = 1" "MorphoNum des_e = 2"
  by (simp_all add: excl_recorded_def ex_lemmatizer_def lemma_filius_def irr_fili_def
        rad_fili_def des_e_def)

lemma ex_fili_entry: "(1, an_fili_voc) \<in> entries [(1, [an_fili_voc, an_fili_gen])]"
  "MorphoIndex an_fili_voc = 2"
  by (simp_all add: entries_def an_fili_voc_def)

text \<open>
  In the first example the vocative \<open>fili\<close> is an analysis of the probe on \<open>fili\<close>;
  the regular vocative, stem plus ending \<open>e\<close>, is not an analysis of the probe on any
  form.
\<close>

lemma ex_fili_voc_probe: "probe_emits ex_lemmatizer (asc ''fili'') 1 an_fili_voc"
proof -
  have "probe_emits ex_lemmatizer (asc ''fili'') (i_Lemma irr_fili)
          \<lparr>FormWithMarks = i_Grq irr_fili, MorphoDescription = asc ''vocatif singulier'',
           MorphoIndex = 2\<rparr>"
    by (rule probe_emits.probe [where irrs = "[irr_fili]"])
       (simp_all add: ex_lemmatizer_def irr_fili_def Morpho_def go_index_def Deramise_def
          Replace_def deramiseReplacer_def)
  then show ?thesis by (simp add: an_fili_voc_def irr_fili_def)
qed

lemma ex_regular_voc_not_probe:
  "\<not> probe_emits ex_lemmatizer form0 1
       \<lparr>FormWithMarks = r_Grq rad_fili @ d_Grq des_e, MorphoDescription = desc, MorphoIndex = 2\<rparr>"
proof
  assume "probe_emits ex_lemmatizer form0 1
       \<lparr>FormWithMarks = r_Grq rad_fili @ d_Grq des_e, MorphoDescription = desc, MorphoIndex = 2\<rparr>"
  from probe_emits_origin [OF this] obtain key irrs irr where
    o: "map_of (irregs ex_lemmatizer) key = Some irrs" "irr \<in> set irrs"
    and sub: "subseq (r_Grq rad_fili @ d_Grq des_e) (i_Grq irr)"
    by auto
  from o have "irr = irr_fili"
    by (auto simp: ex_lemmatizer_def split: if_splits)
  with sub have "subseq (r_Grq rad_fili @ d_Grq des_e) (i_Grq irr_fili)" by simp
  from list_emb_length [OF this] show False
    by (simp add: rad_fili_def des_e_def irr_fili_def)
qed

lemma ex_filius_table:
  "inflectionTable ex_lemmatizer (Some 1) =
     Some \<lparr>t_Lemma = 1,
           Cells = [(1, [[102, 299, 108, 301, 365, 115]]), (2, [[102, 299, 108, 299]]),
                    (4, [[102, 299, 108, 301, 299]])]\<rparr>"
  by (simp add: inflectionTable_def inflectedForms_def ex_lemmatizer_def lemma_filius_def
        model_lupus_def irregAt_def irr_fili_def DesinencesAt_def RadicalsAt_def unique_def
        des_us_def des_e_def des_i_def rad_fili_def Let_def)

lemma ex_uva_irregulars:
  "excl_recorded (lemma_heap ex_irr_lemmatizer 2)"
  "irr_uvam \<in> set (l_irregs (lemma_heap ex_irr_lemmatizer 2))"
  "Exclusive irr_uvam" "3 \<in> set (Morphos irr_uvam)"
  "irr_uva_excl \<in> set (l_irregs (lemma_heap ex_irr_lemmatizer 2))"
  "Exclusive irr_uva_excl" "1 \<in> set (Morphos irr_uva_excl)"
  by (simp_all add: excl_recorded_def ex_irr_lemmatizer_def ex_lemma_uva_irr irr_uvam_def
        irr_uva_excl_def irr_uva_plain_def)

lemma ex_uva_forms:
  "inflectedForms ex_irr_lemmatizer (Some 2) 1 = [[363, 118, 257], [363, 118, 97]]"
  "inflectedForms ex_irr_lemmatizer (Some 2) 3 = [[363, 118, 97, 109]]"
  by (simp_all add: inflectedForms_def ex_irr_lemmatizer_def ex_lemmatizer_def ex_lemma_uva_irr
        lemma_uva_def model_uita_def irregAt_def irr_uvam_def irr_uva_plain_def irr_uva_excl_def
        DesinencesAt_def RadicalsAt_def unique_def des_a_def rad_uv_def Let_def)

lemma ex_uva_table:
  "inflectionTable ex_irr_lemmatizer (Some 2) =
     Some \<lparr>t_Lemma = 2, Cells = [(1, [[363, 118, 257], [363, 118, 97]])]\<rparr>"
  using ex_uva_forms(1)
  by (simp add: inflectionTable_def ex_irr_lemmatizer_def ex_lemmatizer_def ex_lemma_uva_irr
        lemma_uva_def model_uita_def)

section \<open>The model compiler (parseModel)\<close>

text \<open>
  \<open>parseModel\<close> is modelled from the point where a line of the block has been
  substituted, split at \<open>:\<close> and its numeric fields read: a directive carries the
  slot list that \<open>ListI\<close> returns, the radical number that \<open>strconv.Atoi\<close> returns and,
  for \<open>des\<close>, the groups of endings split at \<open>;\<close> and \<open>,\<close>. A line with too few
  fields or an unknown first field is \<open>Skipped\<close>. The flag of \<open>Des\<close> tells \<open>des+\<close>
  from \<open>des\<close>. The model under construction gets the fresh address \<open>a\<close>; it is written
  to the heap when the block is done.
\<close>

datatype directive =
    Modele gostring
  | Pere gostring
  | Des bool "int list" int "gostring list list"
  | RadRule int gostring
  | Abs "int list"
  | AbsPlus "int list"
  | Pos rune
  | Suf "int list" gostring
  | Sufd gostring
  | Skipped

record parse_state =
  ps_l :: Lemmatizer
  ps_m :: Model
  ps_suf :: "(gostring \<times> int) list"

text \<open>\<open>m[k] = append(m[k], vs...)\<close>\<close>

fun alist_append :: "('k \<times> 'v list) list \<Rightarrow> 'k \<Rightarrow> 'v list \<Rightarrow> ('k \<times> 'v list) list" where
  "alist_append [] k vs = [(k, vs)]"
| "alist_append ((k', v) # rest) k vs =
     (if k' = k then (k', v @ vs) # rest else (k', v) # alist_append rest k vs)"

definition newModel :: "gostring \<Rightarrow> Model" where
  "newModel name = \<lparr>Name = name, parent = None, RadicalRules = [], Absents = [],
                     Desinences = [], pos = 0\<rparr>"

definition cloneDesinence :: "Desinence \<Rightarrow> nat \<Rightarrow> Desinence" where
  "cloneDesinence d a = \<lparr>d_Grq = d_Grq d, d_Gr = d_Gr d, MorphoNum = MorphoNum d,
                          RadNum = RadNum d, d_Model = Some a\<rparr>"

definition AllDesinences :: "Model \<Rightarrow> Desinence list" where
  "AllDesinences m = concat (map snd (Desinences m))"

definition addDesinence :: "Desinence \<Rightarrow> Lemmatizer \<Rightarrow> Lemmatizer" where
  "addDesinence d l = l\<lparr>desinences := alist_append (desinences l) (Deramise (d_Gr d)) [d]\<rparr>"

text \<open>\<open>m.Desinences[mn] = append(m.Desinences[mn], d); l.addDesinence(d)\<close>\<close>

definition put_des :: "Desinence \<Rightarrow> parse_state \<Rightarrow> parse_state" where
  "put_des d st =
     st\<lparr>ps_m := (ps_m st)\<lparr>Desinences := alist_append (Desinences (ps_m st)) (MorphoNum d) [d]\<rparr>,
        ps_l := addDesinence d (ps_l st)\<rparr>"

definition suffixed :: "Desinence \<Rightarrow> gostring \<Rightarrow> nat \<Rightarrow> Desinence" where
  "suffixed d suf a = \<lparr>d_Grq = d_Grq d @ suf, d_Gr = Atone (d_Grq d @ suf),
                        MorphoNum = MorphoNum d, RadNum = RadNum d, d_Model = Some a\<rparr>"

text \<open>The endings a \<open>des\<close> or \<open>des+\<close> line lists: the i-th slot takes the i-th
  group, or the last group when there are fewer groups than slots; \<open>-\<close> is the empty
  ending.\<close>

definition des_listed :: "nat \<Rightarrow> int list \<Rightarrow> int \<Rightarrow> gostring list list \<Rightarrow> parse_state \<Rightarrow> parse_state" where
  "des_listed a morphoNums radNum desStrs st =
     foldl (\<lambda>st (i, mn).
         (let desStr = (if i < length desStrs then desStrs ! i
                        else if length desStrs > 0 then last desStrs
                        else [[]])
          in foldl (\<lambda>st g.
               (let grq = (if g = asc ''-'' then [] else g)
                in put_des \<lparr>d_Grq = grq, d_Gr = Atone grq, MorphoNum = mn,
                            RadNum = radNum, d_Model = Some a\<rparr> st))
             st desStr))
       st (zip [0..<length morphoNums] morphoNums)"

text \<open>\<open>des+\<close>: the parent's endings of the listed slots as well.\<close>

definition des_of_parent :: "nat \<Rightarrow> nat \<Rightarrow> int list \<Rightarrow> parse_state \<Rightarrow> parse_state" where
  "des_of_parent a p morphoNums st =
     foldl (\<lambda>st mn.
         foldl (\<lambda>st dp. put_des (cloneDesinence dp a) st)
           st (DesinencesAt (model_heap (ps_l st) p) mn))
       st morphoNums"

definition sufd_of_parent :: "nat \<Rightarrow> nat \<Rightarrow> gostring \<Rightarrow> parse_state \<Rightarrow> parse_state" where
  "sufd_of_parent a p suf st =
     foldl (\<lambda>st dp. if isAbsent (ps_m st) (MorphoNum dp) then st
                     else put_des (suffixed dp suf a) st)
       st (AllDesinences (model_heap (ps_l st) p))"

definition apply_directive :: "nat \<Rightarrow> directive \<Rightarrow> parse_state \<Rightarrow> parse_state" where
  "apply_directive a dir st =
     (case dir of
        Modele name \<Rightarrow> st\<lparr>ps_m := (ps_m st)\<lparr>Name := name\<rparr>\<rparr>
      | Pere name \<Rightarrow> st\<lparr>ps_m := (ps_m st)\<lparr>parent := map_of (models (ps_l st)) name\<rparr>\<rparr>
      | Des inh morphoNums radNum desStrs \<Rightarrow>
          (let st1 = des_listed a morphoNums radNum desStrs st
           in case parent (ps_m st1) of
                None \<Rightarrow> st1
              | Some p \<Rightarrow> if inh then des_of_parent a p morphoNums st1 else st1)
      | RadRule rn rule \<Rightarrow>
          st\<lparr>ps_m := (ps_m st)\<lparr>RadicalRules := map_put rn rule (RadicalRules (ps_m st))\<rparr>\<rparr>
      | Abs xs \<Rightarrow> st\<lparr>ps_m := (ps_m st)\<lparr>Absents := xs\<rparr>\<rparr>
      | AbsPlus xs \<Rightarrow> st\<lparr>ps_m := (ps_m st)\<lparr>Absents := Absents (ps_m st) @ xs\<rparr>\<rparr>
      | Pos c \<Rightarrow> st\<lparr>ps_m := (ps_m st)\<lparr>pos := c\<rparr>\<rparr>
      | Suf morphoNums suf \<Rightarrow> st\<lparr>ps_suf := ps_suf st @ map (\<lambda>mn. (suf, mn)) morphoNums\<rparr>
      | Sufd suf \<Rightarrow>
          (case parent (ps_m st) of
             None \<Rightarrow> st
           | Some p \<Rightarrow> sufd_of_parent a p suf st)
      | Skipped \<Rightarrow> st)"

text \<open>The steps after the directives of the block: inheritance from the parent, then
  the buffered suffixes.\<close>

definition inherit :: "nat \<Rightarrow> parse_state \<Rightarrow> parse_state" where
  "inherit a st =
     (case parent (ps_m st) of
        None \<Rightarrow> st
      | Some p \<Rightarrow>
          (let par = model_heap (ps_l st) p;
               st1 = foldl (\<lambda>st (mn, parentDes).
                        if hasDesinence (ps_m st) mn then st
                        else foldl (\<lambda>st dp. if isAbsent (ps_m st) (MorphoNum dp) then st
                                              else put_des (cloneDesinence dp a) st)
                               st parentDes)
                      st (Desinences par);
               st2 = foldl (\<lambda>st d.
                        if map_of (RadicalRules (ps_m st)) (RadNum d) = None
                        then (case map_of (RadicalRules par) (RadNum d) of
                                None \<Rightarrow> st
                              | Some rule \<Rightarrow>
                                  st\<lparr>ps_m := (ps_m st)\<lparr>RadicalRules :=
                                        map_put (RadNum d) rule (RadicalRules (ps_m st))\<rparr>\<rparr>)
                        else st)
                      st1 (AllDesinences (ps_m st1))
           in st2\<lparr>ps_m := (ps_m st2)\<lparr>Absents := Absents par\<rparr>\<rparr>))"

definition apply_suffixes :: "nat \<Rightarrow> parse_state \<Rightarrow> parse_state" where
  "apply_suffixes a st =
     (let sufDesSlice = concat (map (\<lambda>(suf, morpho).
                          map (\<lambda>d. suffixed d suf a) (DesinencesAt (ps_m st) morpho))
                        (ps_suf st))
      in foldl (\<lambda>st d. put_des d st) st sufDesSlice)"

definition parseModel :: "nat \<Rightarrow> directive list \<Rightarrow> Lemmatizer \<Rightarrow> Lemmatizer \<times> nat option" where
  "parseModel a lines l =
     (let st = foldl (\<lambda>st dir. apply_directive a dir st)
                 \<lparr>ps_l = l, ps_m = newModel [], ps_suf = []\<rparr> lines;
          st = (if pos (ps_m st) = 0
                then (case parent (ps_m st) of
                        None \<Rightarrow> st
                      | Some p \<Rightarrow> st\<lparr>ps_m := (ps_m st)\<lparr>pos := pos (model_heap (ps_l st) p)\<rparr>\<rparr>)
                else st);
          st = inherit a st;
          st = apply_suffixes a st;
          l' = (ps_l st)\<lparr>model_heap := (model_heap (ps_l st))(a := ps_m st)\<rparr>
      in (l', if Name (ps_m st) = [] then None else Some a))"

text \<open>\<open>flushBlock\<close> of \<open>loadModels\<close>: a compiled model is entered in the model
  index under its name.\<close>

definition flushBlock :: "nat \<Rightarrow> directive list \<Rightarrow> Lemmatizer \<Rightarrow> Lemmatizer" where
  "flushBlock a block l =
     (if block = [] then l
      else (case parseModel a block l of
              (l', None) \<Rightarrow> l'
            | (l', Some p) \<Rightarrow> l'\<lparr>models := map_put (Name (model_heap l' p)) p (models l')\<rparr>))"

subsection \<open>What the compiler leaves in the absent list\<close>

lemma foldl_inv:
  "P s \<Longrightarrow> (\<And>s x. P s \<Longrightarrow> P (f s x)) \<Longrightarrow> P (foldl f s xs)"
  by (induction xs arbitrary: s) auto

definition same_frame :: "parse_state \<Rightarrow> parse_state \<Rightarrow> bool" where
  "same_frame st st' \<longleftrightarrow>
     model_heap (ps_l st') = model_heap (ps_l st) \<and> parent (ps_m st') = parent (ps_m st) \<and>
     Absents (ps_m st') = Absents (ps_m st)"

lemma same_frame_refl [simp]: "same_frame st st"
  by (simp add: same_frame_def)

lemma same_frame_trans: "same_frame st st' \<Longrightarrow> same_frame st' st'' \<Longrightarrow> same_frame st st''"
  by (simp add: same_frame_def)

lemma same_frame_put_des: "same_frame st (put_des d st)"
  by (simp add: same_frame_def put_des_def addDesinence_def)

lemma same_frame_foldl:
  assumes "\<And>s x. same_frame s (f s x)"
  shows "same_frame st (foldl f st xs)"
  by (rule foldl_inv [where P = "same_frame st"]) (auto intro: same_frame_trans assms)

lemma same_frame_apply_suffixes: "same_frame st (apply_suffixes a st)"
  unfolding apply_suffixes_def Let_def
  by (rule same_frame_foldl) (rule same_frame_put_des)

text \<open>The heap is not written while a block is compiled.\<close>

definition same_heap :: "parse_state \<Rightarrow> parse_state \<Rightarrow> bool" where
  "same_heap st st' \<longleftrightarrow> model_heap (ps_l st') = model_heap (ps_l st)"

lemma same_heap_refl [simp]: "same_heap st st"
  by (simp add: same_heap_def)

lemma same_heap_trans: "same_heap st st' \<Longrightarrow> same_heap st' st'' \<Longrightarrow> same_heap st st''"
  by (simp add: same_heap_def)

lemma same_heap_put_des: "same_heap st (put_des d st)"
  by (simp add: same_heap_def put_des_def addDesinence_def)

lemma same_heap_foldl:
  assumes "\<And>s x. same_heap s (f s x)"
  shows "same_heap st (foldl f st xs)"
  by (rule foldl_inv [where P = "same_heap st"]) (auto intro: same_heap_trans assms)

lemma same_heap_des_listed: "same_heap st (des_listed a morphoNums radNum desStrs st)"
  unfolding des_listed_def
  by (rule same_heap_foldl)
     (auto simp: Let_def intro!: same_heap_foldl same_heap_put_des)

lemma same_heap_des_of_parent: "same_heap st (des_of_parent a p morphoNums st)"
  unfolding des_of_parent_def
  by (rule same_heap_foldl) (auto intro!: same_heap_foldl same_heap_put_des)

lemma same_heap_sufd_of_parent: "same_heap st (sufd_of_parent a p suf st)"
  unfolding sufd_of_parent_def
  by (rule same_heap_foldl) (auto intro: same_heap_put_des)

lemma same_heap_apply_directive: "same_heap st (apply_directive a dir st)"
proof (cases dir)
  case (Des inh morphoNums radNum desStrs)
  show ?thesis
    using same_heap_des_listed [of st a morphoNums radNum desStrs]
      same_heap_des_of_parent [of "des_listed a morphoNums radNum desStrs st" a _ morphoNums]
    by (auto simp: apply_directive_def Des Let_def split: option.splits
          intro: same_heap_trans)
next
  case (Sufd suf)
  then show ?thesis
    by (simp add: apply_directive_def same_heap_sufd_of_parent split: option.splits)
qed (simp_all add: apply_directive_def same_heap_def)

lemma inherit_absents:
  assumes "parent (ps_m st) = Some p"
  shows "Absents (ps_m (inherit a st)) = Absents (model_heap (ps_l st) p)
         \<and> parent (ps_m (inherit a st)) = Some p
         \<and> model_heap (ps_l (inherit a st)) = model_heap (ps_l st)"
proof -
  define par where "par = model_heap (ps_l st) p"
  define st1 where "st1 = foldl (\<lambda>st (mn, parentDes).
                        if hasDesinence (ps_m st) mn then st
                        else foldl (\<lambda>st dp. if isAbsent (ps_m st) (MorphoNum dp) then st
                                              else put_des (cloneDesinence dp a) st)
                               st parentDes)
                      st (Desinences par)"
  define st2 where "st2 = foldl (\<lambda>st d.
                        if map_of (RadicalRules (ps_m st)) (RadNum d) = None
                        then (case map_of (RadicalRules par) (RadNum d) of
                                None \<Rightarrow> st
                              | Some rule \<Rightarrow>
                                  st\<lparr>ps_m := (ps_m st)\<lparr>RadicalRules :=
                                        map_put (RadNum d) rule (RadicalRules (ps_m st))\<rparr>\<rparr>)
                        else st)
                      st1 (AllDesinences (ps_m st1))"
  have 1: "same_frame st st1"
    unfolding st1_def
    by (rule same_frame_foldl)
       (auto intro!: same_frame_foldl same_frame_put_des)
  have 2: "same_frame st1 st2"
    unfolding st2_def
    by (rule same_frame_foldl) (auto simp: same_frame_def split: option.splits)
  have "inherit a st = st2\<lparr>ps_m := (ps_m st2)\<lparr>Absents := Absents par\<rparr>\<rparr>"
    unfolding st2_def st1_def par_def inherit_def Let_def using assms by simp
  then show ?thesis
    using 1 2 assms by (simp add: same_frame_def par_def)
qed

text \<open>
  Whatever the block says, the compiled model of a block with a parent carries its
  parent's absent list, and nothing of its own.
\<close>

lemma parseModel_absents_of_parent:
  assumes "parseModel a block l = (l', r)" and "parent (model_heap l' a) = Some p"
  shows "Absents (model_heap l' a) = Absents (model_heap l p)"
proof -
  define st0 where "st0 = foldl (\<lambda>st dir. apply_directive a dir st)
                 \<lparr>ps_l = l, ps_m = newModel [], ps_suf = []\<rparr> block"
  define st1 where "st1 = (if pos (ps_m st0) = 0
                then (case parent (ps_m st0) of
                        None \<Rightarrow> st0
                      | Some p \<Rightarrow> st0\<lparr>ps_m := (ps_m st0)\<lparr>pos := pos (model_heap (ps_l st0) p)\<rparr>\<rparr>)
                else st0)"
  define st2 where "st2 = inherit a st1"
  define st3 where "st3 = apply_suffixes a st2"
  have "parseModel a block l =
          ((ps_l st3)\<lparr>model_heap := (model_heap (ps_l st3))(a := ps_m st3)\<rparr>,
           if Name (ps_m st3) = [] then None else Some a)"
    unfolding parseModel_def st3_def st2_def st1_def st0_def Let_def by (rule refl)
  with assms(1)
  have l': "l' = (ps_l st3)\<lparr>model_heap := (model_heap (ps_l st3))(a := ps_m st3)\<rparr>"
    by simp
  have h0: "same_heap \<lparr>ps_l = l, ps_m = newModel [], ps_suf = []\<rparr> st0"
    unfolding st0_def by (rule same_heap_foldl) (rule same_heap_apply_directive)
  have h1: "model_heap (ps_l st1) = model_heap l"
    using h0 by (simp add: st1_def same_heap_def split: option.splits)
  have f3: "same_frame st2 st3"
    unfolding st3_def by (rule same_frame_apply_suffixes)
  have "parent (ps_m st3) = Some p"
    using assms(2) by (simp add: l')
  then have p2: "parent (ps_m st2) = Some p"
    using f3 by (simp add: same_frame_def)
  have p1: "parent (ps_m st1) = Some p"
  proof (cases "parent (ps_m st1)")
    case None
    then have "inherit a st1 = st1" by (simp add: inherit_def)
    with p2 None show ?thesis by (simp add: st2_def)
  next
    case (Some q)
    from inherit_absents [OF Some, of a] p2 Some show ?thesis by (simp add: st2_def)
  qed
  from inherit_absents [OF p1, of a]
  have "Absents (ps_m st2) = Absents (model_heap l p)"
    by (simp add: st2_def h1)
  then have "Absents (ps_m st3) = Absents (model_heap l p)"
    using f3 by (simp add: same_frame_def)
  then show ?thesis by (simp add: l')
qed

subsection \<open>Two blocks of the model file\<close>

text \<open>
  A parent \<open>lupus\<close> with \<open>abs:7\<close> and the endings of slots 1 and 5, and a child
  \<open>puer\<close> with \<open>pere:lupus\<close> and \<open>abs:5\<close>, compiled in this order into the empty
  analyzer at the addresses 1 and 2.
\<close>

definition block_lupus :: "directive list" where
  "block_lupus = [Modele (asc ''lupus''), RadRule 1 (asc ''2''), Abs [7],
                  Des False [1, 5] 1 [[asc ''us''], [asc ''e'']]]"

definition block_puer :: "directive list" where
  "block_puer = [Modele (asc ''puer''), Pere (asc ''lupus''), Abs [5]]"

definition two_models :: Lemmatizer where
  "two_models = flushBlock 2 block_puer (flushBlock 1 block_lupus empty_lemmatizer)"

lemma endings_plain:
  "Atone (asc ''us'') = asc ''us''" "Atone (asc ''e'') = asc ''e''"
  "Deramise (asc ''us'') = asc ''us''" "Deramise (asc ''e'') = asc ''e''"
  by code_simp+

lemmas parseModel_defs =
  des_listed_def des_of_parent_def sufd_of_parent_def suffixed_def
  two_models_def flushBlock_def parseModel_def block_puer_def block_lupus_def
  apply_directive_def inherit_def apply_suffixes_def put_des_def addDesinence_def
  newModel_def empty_lemmatizer_def Let_def cloneDesinence_def hasDesinence_def
  isAbsent_def AllDesinences_def DesinencesAt_def

lemma two_models_index: "models two_models = [(asc ''lupus'', 1), (asc ''puer'', 2)]"
  using endings_plain by (simp add: parseModel_defs)

lemma two_models_parent: "parent (model_heap two_models 2) = Some 1"
  using endings_plain by (simp add: parseModel_defs)

lemma two_models_lupus_absents: "Absents (model_heap two_models 1) = [7]"
  using endings_plain by (simp add: parseModel_defs)

lemma two_models_puer_desinences:
  "Desinences (model_heap two_models 2) =
     [(1, [\<lparr>d_Grq = asc ''us'', d_Gr = asc ''us'', MorphoNum = 1, RadNum = 1,
            d_Model = Some 2\<rparr>])]"
  using endings_plain by (simp add: parseModel_defs)

section \<open>The claims\<close>


text \<open>
  C10. Lemmatizing the empty string returns the empty map, for every value of the
  sentence-start flag and whatever the indexes of the analyzer hold; the call at stage 0
  returns at once: it makes no recursive call of the cascade.
\<close>

theorem lemmatize_empty_form:
  "LemmatizeWord U l [] sentenceStart = Some [] \<and>
   (\<nexists>callee. lemmatizeMEtape_rel callee (U, l, [], sentenceStart, 0))"
proof
  show "LemmatizeWord U l [] sentenceStart = Some []"
    by (simp add: LemmatizeWord_def lemmatizeM_def lemmatizeMEtape.simps)
  show "\<nexists>callee. lemmatizeMEtape_rel callee (U, l, [], sentenceStart, 0)"
    by (auto elim: lemmatizeMEtape_rel.cases)
qed

text \<open>
  C1. The cascade terminates on every input. Both call relations are well-founded: no
  form starts an infinite chain of nested recursive calls, neither in the raw matcher
  (the ii recursion) nor in the cascade (the stage recursion and the enclitic recursion
  at stage 1); and \<open>lemmatizeM\<close>, entered at stage 0, returns a result map for every
  form and every flag.
\<close>

theorem lemmatize_terminates:
  "wfp (\<lambda>callee caller. cascade_calls caller callee) \<and>
   wfp (\<lambda>callee caller. raw_calls caller callee) \<and>
   (\<exists>m. lemmatizeM U l form sentenceStart = Some m)"
proof (intro conjI)
  show "wfp (\<lambda>callee caller. cascade_calls caller callee)"
    unfolding cascade_calls_def using lemmatizeMEtape_total by (intro accp_wfpI) simp
  show "wfp (\<lambda>callee caller. raw_calls caller callee)"
    unfolding raw_calls_def using lemmatizeRaw_total by (intro accp_wfpI) simp
  show "\<exists>m. lemmatizeM U l form sentenceStart = Some m"
    by (simp add: lemmatizeM_def lemmatizeMEtape_ok)
qed




text \<open>
  C8. Query-time operations never fail: \<open>LemmatizeWord\<close> returns a result map (no
  index or slice of the source goes out of range) for every form; \<open>Morpho\<close> returns
  the empty string for every slot outside 1 .. number of loaded descriptions (the length
  of the table minus the unused index 0); and \<open>Lemma\<close> returns nil for a key whose
  normal form is not in the lemma index.
\<close>

theorem query_operations_never_fail:
  "(\<exists>m. LemmatizeWord U l form sentenceStart = Some m) \<and>
   (slot < 1 \<or> int (length (morphos l)) - 1 < slot \<longrightarrow> Morpho l slot = Some []) \<and>
   (map_of (lemmas_tab l) (NormalizeKey key) = None \<longrightarrow> Lemmatizer_Lemma l key = None)"
  by (auto simp: LemmatizeWord_def lemmatizeM_def lemmatizeMEtape_ok Morpho_def
        Lemmatizer_Lemma_def)

theorem query_operations_never_fail_witness:
  "(\<exists>m. LemmatizeWord ascii_tables ex_lemmatizer (asc ''amat'') False = Some m) \<and>
   Morpho ex_lemmatizer 5 = Some [] \<and>
   Lemmatizer_Lemma ex_lemmatizer (asc ''amo'') = None"
  using query_operations_never_fail [of ascii_tables ex_lemmatizer "asc ''amat''" False 5 "asc ''amo''"]
  by (simp add: ex_lemmatizer_def NormalizeKey_def Atone_def Deramise_def Replace_def
        atoneReplacer_def deramiseReplacer_def)

text \<open>
  C4, as amended. For every split of the deramised form into stem and ending, the ii
  recursion (a recursive call of the raw matcher on stem + "i" + ending) is triggered if and
  only if the stem is a key of the radical index and at least one of (a), (b), (c) holds;
  and the raw matcher makes no other recursive call.
\<close>

theorem ii_recursion_trigger:
  "(ii_recursion_at l form0 i \<longleftrightarrow>
      i \<le> length (Deramise form0) \<and>
      map_of (radicals l) (stem_at form0 i) \<noteq> None \<and>
      (case_a (stem_at form0 i) (ending_at form0 i) \<or>
       case_b (stem_at form0 i) (ending_at form0 i) \<or>
       case_c (stem_at form0 i) (ending_at form0 i))) \<and>
   (raw_calls (U, l, form0) callee \<longleftrightarrow>
      (\<exists>k. ii_recursion_at l form0 k \<and>
           callee = (U, l, stem_at form0 k @ asc ''i'' @ ending_at form0 k)))"
  unfolding raw_calls_def lemmatizeRaw_rel_iff
  by (simp add: ii_recursion_at_def needDoubleI_spec)

text \<open>
  C4, as stated, fails in both directions on the form \<open>fili\<close> with the example lexicon.
  At the split \<open>fil|i\<close> exactly one case holds (case b) and no recursion is triggered,
  because \<open>fil\<close> is not a key of the radical index. At the split \<open>fili|\<close> the
  recursion on \<open>filii\<close> is triggered although two cases hold (a and c), not exactly one.
\<close>

theorem ii_recursion_counterexample:
  "exactly_one (case_a (stem_at (asc ''fili'') 3) (ending_at (asc ''fili'') 3))
               (case_b (stem_at (asc ''fili'') 3) (ending_at (asc ''fili'') 3))
               (case_c (stem_at (asc ''fili'') 3) (ending_at (asc ''fili'') 3)) \<and>
   \<not> ii_recursion_at ex_lemmatizer (asc ''fili'') 3 \<and>
   ii_recursion_at ex_lemmatizer (asc ''fili'') 4 \<and>
   raw_calls (ascii_tables, ex_lemmatizer, asc ''fili'') (ascii_tables, ex_lemmatizer, asc ''filii'') \<and>
   \<not> exactly_one (case_a (stem_at (asc ''fili'') 4) (ending_at (asc ''fili'') 4))
                 (case_b (stem_at (asc ''fili'') 4) (ending_at (asc ''fili'') 4))
                 (case_c (stem_at (asc ''fili'') 4) (ending_at (asc ''fili'') 4))"
proof -
  have "raw_calls (ascii_tables, ex_lemmatizer, asc ''fili'')
          (ascii_tables, ex_lemmatizer, asc ''filii'')"
    unfolding raw_calls_def lemmatizeRaw_rel_iff
    using ex_triggered_4 ex_split_4 by (intro exI [of _ 4]) simp
  then show ?thesis
    using ex_not_triggered_3 ex_triggered_4
    by (simp only: ex_split_3 ex_split_4 ex_cases_3 ex_cases_4 exactly_one_def) simp
qed



text \<open>
  C9, as amended. The table is positional: \<open>loadMorphos\<close> appends, in file order, the
  text after the first colon of every line that stands before the \<open>"! --- "\<close>
  terminator, does not start with \<open>"!"\<close> and contains a colon. Loaded into a fresh
  analyzer, the k-th such line (counting from 1) is the description at index k, whatever
  number the line carries; a line \<open>N:DESCRIPTION\<close> is found at index N only when it
  is the N-th such line.
\<close>

theorem morphos_table_positional:
  "morphos l = [[]] \<Longrightarrow> 1 \<le> k \<Longrightarrow> k \<le> length (accepted_lines lines) \<Longrightarrow>
   (\<exists>l'. loadMorphos lines l = Some l' \<and>
         length (morphos l') = Suc (length (accepted_lines lines)) \<and>
         Morpho l' (int k) = Some (description (accepted_lines lines ! (k - 1))))"
  using Morpho_loaded [of l k lines] by (simp add: loadMorphos_eq)

theorem morphos_table_positional_witness:
  "loadMorphos swapped_morphos empty_lemmatizer =
     Some (empty_lemmatizer\<lparr>morphos := [[], asc ''vocatif singulier'', asc ''nominatif singulier'']\<rparr>) \<and>
   Morpho (empty_lemmatizer\<lparr>morphos := [[], asc ''vocatif singulier'', asc ''nominatif singulier'']\<rparr>) 2
     = Some (asc ''nominatif singulier'')"
proof -
  have acc: "accepted_lines swapped_morphos = swapped_morphos"
    by (simp add: accepted_lines_def swapped_morphos_def)
  have "morphos empty_lemmatizer = [[]]" by (simp add: empty_lemmatizer_def)
  moreover have "(1 :: nat) \<le> 2" by simp
  moreover have "2 \<le> length (accepted_lines swapped_morphos)"
    by (simp add: acc) (simp add: swapped_morphos_def)
  ultimately obtain l' where l': "loadMorphos swapped_morphos empty_lemmatizer = Some l'"
    and m: "Morpho l' (int 2) = Some (description (accepted_lines swapped_morphos ! (2 - 1)))"
    using morphos_table_positional [of empty_lemmatizer 2 swapped_morphos] by blast
  have "description (accepted_lines swapped_morphos ! (2 - 1)) = asc ''nominatif singulier''"
    by (simp add: acc) (simp add: swapped_morphos_def description_def)
  with l' m loadMorphos_swapped show ?thesis by simp
qed

text \<open>
  C9, as stated, fails: when the file lists \<open>2:vocatif singulier\<close> before
  \<open>1:nominatif singulier\<close>, index 1 of the loaded table holds the description of the
  line numbered 2.
\<close>

theorem morphos_table_counterexample:
  "loadMorphos swapped_morphos empty_lemmatizer =
     Some (empty_lemmatizer\<lparr>morphos := [[], asc ''vocatif singulier'', asc ''nominatif singulier'']\<rparr>) \<and>
   Morpho (empty_lemmatizer\<lparr>morphos := [[], asc ''vocatif singulier'', asc ''nominatif singulier'']\<rparr>) 1
     = Some (asc ''vocatif singulier'') \<and>
   asc ''vocatif singulier'' \<noteq> asc ''nominatif singulier''"
  using loadMorphos_swapped by (simp add: Morpho_def go_index_def)

text \<open>
  C2, as amended. \<open>addIrreg\<close> records every slot of an exclusive irregular in the
  lemma's mask. For a lemma with such a mask that has an exclusive irregular covering
  slot \<open>s\<close>: the raw matcher accepts no radical+ending pair of that lemma at slot
  \<open>s\<close>, and every Analysis it returns for that lemma at slot \<open>s\<close> is one the
  irregular probe emits, on the form itself or in a call of the ii retry with the
  inserted \<open>i\<close> removed again; so an irregular of that lemma in the index covers the
  slot, the Analysis carries the description of the slot, and its marked form is that
  irregular's marked form, less the code points the retry removed. In the inflection
  table: when that irregular is the first one in the lemma's list that covers \<open>s\<close>,
  its form is not empty and the lemma has a model, the forms at slot \<open>s\<close> are exactly
  the one-element list of its diacritic-marked form, and the table holds that list at
  \<open>s\<close> if the model defines endings at slot \<open>s\<close> and holds no entry at \<open>s\<close>
  otherwise.
\<close>

theorem exclusive_irregular_preempts:
  "(l_irregs lem0 = [] \<longrightarrow> excl_recorded lem0) \<and>
   (excl_recorded lem0 \<longrightarrow> excl_recorded (addIrreg irr0 lem0)) \<and>
   (excl_recorded (lemma_heap l k) \<and> irr \<in> set (l_irregs (lemma_heap l k)) \<and>
    Exclusive irr \<and> s \<in> set (Morphos irr) \<longrightarrow>
      (r_Lemma rad = k \<and> MorphoNum de = s \<longrightarrow>
         tryPair U l cntV cntAe cntOe rad de result = Some result) \<and>
      (lemmatizeRaw U l form = Some res \<and> (k, an) \<in> entries res \<and> MorphoIndex an = s \<longrightarrow>
         probe_emits l form k an \<and>
         (\<exists>key irrs ir. map_of (irregs l) key = Some irrs \<and> ir \<in> set irrs \<and>
            i_Lemma ir = k \<and> s \<in> set (Morphos ir) \<and>
            Morpho l s = Some (MorphoDescription an) \<and>
            subseq (FormWithMarks an) (i_Grq ir))) \<and>
      (find (\<lambda>ir. s \<in> set (Morphos ir)) (l_irregs (lemma_heap l k)) = Some irr \<and>
       i_Grq irr \<noteq> [] \<and> model (lemma_heap l k) = Some ma \<longrightarrow>
         inflectedForms l (Some k) s = [i_Grq irr] \<and>
         (\<exists>tab. inflectionTable l (Some k) = Some tab \<and>
            map_of (Cells tab) s =
              (if s \<in> fst ` set (Desinences (model_heap l ma)) then Some [i_Grq irr] else None))))"
proof (intro conjI impI; (elim conjE)?)
  show "l_irregs lem0 = [] \<Longrightarrow> excl_recorded lem0" by (rule excl_recorded_fresh)
  show "excl_recorded lem0 \<Longrightarrow> excl_recorded (addIrreg irr0 lem0)"
    by (rule excl_recorded_addIrreg)
next
  assume inv: "excl_recorded (lemma_heap l k)" and irr: "irr \<in> set (l_irregs (lemma_heap l k))"
    "Exclusive irr" "s \<in> set (Morphos irr)"
  then have masked: "isExclusiveIrreg (lemma_heap l k) s" by (rule has_exclusive_masked)
  {
    assume "r_Lemma rad = k" "MorphoNum de = s"
    then show "tryPair U l cntV cntAe cntOe rad de result = Some result"
      using masked by (simp add: tryPair_skips_masked)
  next
    assume raw: "lemmatizeRaw U l form = Some res" "(k, an) \<in> entries res" "MorphoIndex an = s"
    then show pe: "probe_emits l form k an"
      using lemmatizeRaw_masked [of U l form res] masked
      by (auto simp: masked_only_def)
    from probe_emits_origin [OF pe] raw(3)
    show "\<exists>key irrs ir. map_of (irregs l) key = Some irrs \<and> ir \<in> set irrs \<and>
            i_Lemma ir = k \<and> s \<in> set (Morphos ir) \<and>
            Morpho l s = Some (MorphoDescription an) \<and>
            subseq (FormWithMarks an) (i_Grq ir)"
      by simp
  next
    assume first: "find (\<lambda>ir. s \<in> set (Morphos ir)) (l_irregs (lemma_heap l k)) = Some irr"
      "i_Grq irr \<noteq> []" "model (lemma_heap l k) = Some ma"
    show forms: "inflectedForms l (Some k) s = [i_Grq irr]"
      using first irr(2) by (simp add: inflectedForms_exclusive)
    from inflectionTable_cell [OF first(3), of s] obtain tab where
      tab: "inflectionTable l (Some k) = Some tab"
      "map_of (Cells tab) s =
         (if s \<in> fst ` set (Desinences (model_heap l ma)) \<and> inflectedForms l (Some k) s \<noteq> []
          then Some (inflectedForms l (Some k) s) else None)"
      by blast
    have "map_of (Cells tab) s =
            (if s \<in> fst ` set (Desinences (model_heap l ma)) then Some [i_Grq irr] else None)"
      unfolding tab(2) forms by simp
    with tab(1) show "\<exists>tab. inflectionTable l (Some k) = Some tab \<and>
            map_of (Cells tab) s =
              (if s \<in> fst ` set (Desinences (model_heap l ma)) then Some [i_Grq irr] else None)"
      by blast
  }
qed

theorem exclusive_irregular_preempts_witness:
  "excl_recorded (lemma_heap ex_lemmatizer 1) \<and>
   irr_fili \<in> set (l_irregs (lemma_heap ex_lemmatizer 1)) \<and>
   Exclusive irr_fili \<and> 2 \<in> set (Morphos irr_fili) \<and>
   tryPair ascii_tables ex_lemmatizer 0 0 0 rad_fili des_e [] = Some [] \<and>
   lemmatizeRaw ascii_tables ex_lemmatizer (asc ''fili'') = Some [(1, [an_fili_voc, an_fili_gen])] \<and>
   probe_emits ex_lemmatizer (asc ''fili'') 1 an_fili_voc \<and>
   inflectedForms ex_lemmatizer (Some 1) 2 = [i_Grq irr_fili] \<and>
   inflectionTable ex_lemmatizer (Some 1) =
     Some \<lparr>t_Lemma = 1,
           Cells = [(1, [[102, 299, 108, 301, 365, 115]]), (2, [[102, 299, 108, 299]]),
                    (4, [[102, 299, 108, 301, 299]])]\<rparr>"
  using exclusive_irregular_preempts [where l = ex_lemmatizer and k = 1 and irr = irr_fili
      and s = 2 and rad = rad_fili and de = des_e and U = ascii_tables and cntV = 0
      and cntAe = 0 and cntOe = 0 and result = "[]" and form = "asc ''fili''"
      and res = "[(1, [an_fili_voc, an_fili_gen])]" and an = an_fili_voc and ma = 1]
    ex_filius_irregular ex_raw_fili ex_fili_entry ex_filius_table
  by simp

text \<open>
  C2, as stated, fails for the inflection table. The lemma \<open>uva\<close> of the second
  example has an exclusive irregular covering slot 3, but its model defines no ending at
  slot 3, so the table has no entry there. It also has an exclusive irregular covering
  slot 1, listed after a non-exclusive one for the same slot: the forms at slot 1 are the
  non-exclusive irregular followed by the regular form, not the exclusive irregular alone.
\<close>

theorem exclusive_irregular_counterexample:
  "excl_recorded (lemma_heap ex_irr_lemmatizer 2) \<and>
   irr_uvam \<in> set (l_irregs (lemma_heap ex_irr_lemmatizer 2)) \<and>
   Exclusive irr_uvam \<and> 3 \<in> set (Morphos irr_uvam) \<and>
   inflectionTable ex_irr_lemmatizer (Some 2) =
     Some \<lparr>t_Lemma = 2, Cells = [(1, [[363, 118, 257], [363, 118, 97]])]\<rparr> \<and>
   map_of [(1 :: int, [[363, 118, 257], [363, 118, 97 :: nat]])] 3 = None \<and>
   irr_uva_excl \<in> set (l_irregs (lemma_heap ex_irr_lemmatizer 2)) \<and>
   Exclusive irr_uva_excl \<and> 1 \<in> set (Morphos irr_uva_excl) \<and>
   inflectedForms ex_irr_lemmatizer (Some 2) 1 = [[363, 118, 257], [363, 118, 97]] \<and>
   [[363, 118, 257], [363, 118, 97]] \<noteq> [i_Grq irr_uva_excl]"
  using ex_uva_irregulars ex_uva_table ex_uva_forms(1) by simp

text \<open>
  C6, at the two blocks above. The child declared slot 5 absent, and the compiler
  obeyed while it compiled: the child did not inherit the ending of slot 5. The compiled
  child's absent list is the parent's list \<open>[7]\<close>: slot 5, which the child listed, is
  not in it, and \<open>isAbsent\<close> answers no for it.
\<close>

theorem compiled_absents_drop_own:
  "Absents (model_heap two_models 2) = [7]
   \<and> \<not> isAbsent (model_heap two_models 2) 5
   \<and> \<not> hasDesinence (model_heap two_models 2) 5
   \<and> hasDesinence (model_heap two_models 1) 5"
  using endings_plain by (simp add: parseModel_defs)

end
